theory Spec2Isabelle
  imports Main "HOL-Library.Word"
begin

section \<open>LZW compression and decompression (src/src/lzw.c)\<close>

text \<open>
  The development follows \<^verbatim>\<open>lzw_compress\<close> and \<^verbatim>\<open>lzw_decompress\<close> of
  \<^verbatim>\<open>src/src/lzw.c\<close>. A \<^verbatim>\<open>char\<close> is a byte, \<^verbatim>\<open>unsigned int\<close> is a 32-bit word of four
  bytes whose arithmetic wraps. The C functions have no error result. Every place where
  the C text reads memory it never wrote, or reads or writes outside an array or an
  allocation, is a branch of the model that returns a \<open>fault\<close>: the behaviour of the
  program at such a place is undefined. The one array the model does not bound is the
  compressor's \<^verbatim>\<open>dest\<close>, which the caller allocates. Allocation itself is taken to
  succeed, as the C text takes it.
\<close>

subsection \<open>Data\<close>

type_synonym byte = "8 word"

text \<open>
  Modelled from the spec: the typedef of \<^verbatim>\<open>codeword\<close> is not in the sources (the
  \<^verbatim>\<open>trie.h\<close> at hand does not declare it). The spec calls it a fixed-width unsigned
  integer; \<^verbatim>\<open>dest[0] = len\<close> and \<^verbatim>\<open>cw_enc = dict_next\<close> store an \<^verbatim>\<open>unsigned int\<close>
  in it, so it is taken as wide as \<^verbatim>\<open>unsigned int\<close>.
\<close>

type_synonym codeword = "32 word"

definition BUF_SIZE :: nat where
  "BUF_SIZE = 32768"

datatype fault =
    SubstrOverflow            \<comment> \<open>a write past \<^verbatim>\<open>substr[BUF_SIZE]\<close> or \<^verbatim>\<open>substr_ch[BUF_SIZE]\<close>\<close>
  | SrcOutOfBounds nat        \<comment> \<open>a read of \<^verbatim>\<open>src[i]\<close> with \<^verbatim>\<open>i >= len\<close>\<close>
  | DictUnassigned codeword   \<comment> \<open>a read of \<^verbatim>\<open>dict[k]\<close> or \<^verbatim>\<open>dict_lens[k]\<close>, never written\<close>
  | EmptyEntry codeword       \<comment> \<open>a read of the first byte of a string of length 0\<close>
  | DictOverflow codeword     \<comment> \<open>a write of \<^verbatim>\<open>dict[dict_next]\<close> with \<^verbatim>\<open>dict_next >= dict_size\<close>\<close>
  | DestOverflow              \<comment> \<open>a copy to \<^verbatim>\<open>dest + di\<close> that ends past \<^verbatim>\<open>dest_len\<close> bytes\<close>

subsection \<open>The dictionary trie of the compressor\<close>

text \<open>
  Modelled from the spec: \<^verbatim>\<open>trie.c\<close> (\<^verbatim>\<open>trie_init\<close>, \<^verbatim>\<open>trie_put\<close>, \<^verbatim>\<open>trie_get\<close>,
  \<^verbatim>\<open>trie_destroy\<close>) is missing from the sources. The spec describes the trie as a mapping
  from byte strings to codewords: insert adds the mapping or, if the string is already
  present, leaves the mapping unchanged; lookup returns the codeword of the exact string,
  and the reference implementation reports "not found" as codeword value 0. The spec
  numbers the codewords: 0 to 255 for the single-byte strings, 256 reserved and never a
  real entry, dynamic entries one after the other from 257 on; its compressor moves its
  counter on after each insertion. The calls in \<^verbatim>\<open>lzw.c\<close> are
  \<^verbatim>\<open>trie_put(dict, w, len)\<close> and \<^verbatim>\<open>trie_get(dict, w, len)\<close>: the caller passes no codeword,
  so the counter is the trie's. A string is the list of the first \<^verbatim>\<open>len\<close> bytes of
  \<^verbatim>\<open>w\<close>; the empty string is never inserted, so looking it up gives 0.
\<close>

record trie =
  entries :: "byte list \<rightharpoonup> codeword"
  next_cw :: codeword

definition trie_init :: trie where
  "trie_init = \<lparr>entries = Map.empty, next_cw = 0\<rparr>"

definition trie_put :: "trie \<Rightarrow> byte list \<Rightarrow> trie" where
  "trie_put t w =
     \<lparr>entries = (case entries t w of
                   Some _ \<Rightarrow> entries t
                 | None \<Rightarrow> (entries t)(w \<mapsto> next_cw t)),
      next_cw = (if next_cw t = 255 then 257 else next_cw t + 1)\<rparr>"

definition trie_get :: "trie \<Rightarrow> byte list \<Rightarrow> codeword" where
  "trie_get t w = (case entries t w of None \<Rightarrow> 0 | Some cw \<Rightarrow> cw)"

subsection \<open>The compressor\<close>

text \<open>
  The seeding loop \<^verbatim>\<open>do { trie_put(dict, char_buf, 1); c++; } while (c != 0)\<close> runs the
  \<^verbatim>\<open>unsigned char c\<close> through 0, 1, ..., 255.
\<close>

definition seed_trie :: trie where
  "seed_trie = fold (\<lambda>c t. trie_put t [of_nat c]) [0..<256] trie_init"

text \<open>
  The state of the scanning loop: the trie \<^verbatim>\<open>dict\<close> (here \<open>c_dict\<close>; the decompressor has
  a \<^verbatim>\<open>dict\<close> of its own), the bytes \<^verbatim>\<open>substr[0 .. substr_len - 1]\<close>, and the codewords
  \<^verbatim>\<open>dest[1 .. di - 1]\<close> written so far (\<open>c_dest\<close>). A write to \<^verbatim>\<open>substr[substr_len]\<close> with
  \<^verbatim>\<open>substr_len\<close> already at \<^verbatim>\<open>BUF_SIZE\<close> is past the array.
\<close>

record cstate =
  c_dict :: trie
  substr :: "byte list"
  c_dest :: "codeword list"

definition compress_step :: "cstate \<Rightarrow> byte \<Rightarrow> fault + cstate" where
  "compress_step s c =
     (if BUF_SIZE \<le> length (substr s) then Inl SubstrOverflow
      else
        let sub = substr s @ [c] in
        if trie_get (c_dict s) sub = 0
        then Inr \<lparr>c_dict = trie_put (c_dict s) sub,
                  substr = [c],
                  c_dest = c_dest s @ [trie_get (c_dict s) (butlast sub)]\<rparr>
        else Inr (s\<lparr>substr := sub\<rparr>))"

fun compress_loop :: "cstate \<Rightarrow> byte list \<Rightarrow> fault + cstate" where
  "compress_loop s [] = Inr s"
| "compress_loop s (c # cs) =
     (case compress_step s c of
        Inl f \<Rightarrow> Inl f
      | Inr s' \<Rightarrow> compress_loop s' cs)"

text \<open>
  The scan from a given trie, and what it leaves in \<^verbatim>\<open>dest[0 .. di - 1]\<close>: the length,
  the codewords of the loop, and the codeword stored after the loop. \<^verbatim>\<open>lzw_compress\<close>
  returns \<^verbatim>\<open>di\<close>, the length of that list. The source buffer is the list of its
  \<^verbatim>\<open>len\<close> bytes.
\<close>

definition compress_from :: "trie \<Rightarrow> byte list \<Rightarrow> fault + codeword list" where
  "compress_from t src =
     (case compress_loop \<lparr>c_dict = t, substr = [], c_dest = []\<rparr> src of
        Inl f \<Rightarrow> Inl f
      | Inr s \<Rightarrow>
          Inr (of_nat (length src) # c_dest s @ [trie_get (c_dict s) (substr s)]))"

definition lzw_compress :: "byte list \<Rightarrow> fault + codeword list" where
  "lzw_compress src = compress_from seed_trie src"

subsection \<open>The decompressor\<close>

text \<open>
  The array \<^verbatim>\<open>dict\<close> of pointers and the array \<^verbatim>\<open>dict_lens\<close> of lengths are two partial
  maps from an index: a slot is in the map once the code has written it, and a slot of
  \<^verbatim>\<open>dict\<close> maps to the bytes of the string it points to. The seeding loop
  \<^verbatim>\<open>do { dict[c][0] = c-1; dict_lens[c] = 1; c++; } while (c <= 256)\<close> starts at \<^verbatim>\<open>c = 1\<close>.
\<close>

definition seed_dict :: "codeword \<rightharpoonup> byte list" where
  "seed_dict = fold (\<lambda>c d. d(of_nat c \<mapsto> [of_nat (c - 1)])) [1..<257] Map.empty"

definition seed_lens :: "codeword \<rightharpoonup> nat" where
  "seed_lens = fold (\<lambda>c d. d(of_nat c \<mapsto> 1)) [1..<257] Map.empty"

text \<open>
  \<open>dest\<close> is the list of the bytes copied to the output buffer so far, \<open>dest_len\<close> the
  size of its allocation, \<^verbatim>\<open>src[0] + 1\<close>.
\<close>

record dstate =
  dict :: "codeword \<rightharpoonup> byte list"
  dict_lens :: "codeword \<rightharpoonup> nat"
  dict_size :: "32 word"
  dict_next :: "32 word"
  cw_prev :: codeword
  cw_enc :: codeword
  dest :: "byte list"
  di :: "32 word"
  dest_len :: "32 word"

text \<open>
  What \<^verbatim>\<open>memcpy(_, dict[k], dict_lens[k])\<close> copies. The length is read first. A length of 0
  copies nothing, whatever the pointer; this is the state of a slot that the
  \<^verbatim>\<open>memset\<close> of the growth step has cleared. Otherwise the pointer must have been
  written and the string must be that long.
\<close>

definition copy_entry :: "dstate \<Rightarrow> codeword \<Rightarrow> fault + byte list" where
  "copy_entry s k =
     (case dict_lens s k of
        None \<Rightarrow> Inl (DictUnassigned k)
      | Some n \<Rightarrow>
          if n = 0 then Inr []
          else (case dict s k of
                  None \<Rightarrow> Inl (DictUnassigned k)
                | Some e \<Rightarrow> if length e < n then Inl (DictUnassigned k) else Inr (take n e)))"

text \<open>\<^verbatim>\<open>dict[k][0]\<close>: the first byte of the string slot \<open>k\<close> points to.\<close>

definition first_byte :: "dstate \<Rightarrow> codeword \<Rightarrow> fault + byte" where
  "first_byte s k =
     (case dict s k of
        None \<Rightarrow> Inl (DictUnassigned k)
      | Some e \<Rightarrow> (case e of [] \<Rightarrow> Inl (EmptyEntry k) | c # _ \<Rightarrow> Inr c))"

text \<open>A copy of \<open>n\<close> bytes to \<^verbatim>\<open>dest + di\<close> stays inside the allocation.\<close>

definition dest_room :: "dstate \<Rightarrow> nat \<Rightarrow> bool" where
  "dest_room s n \<longleftrightarrow> unat (di s) + n \<le> unat (dest_len s)"

text \<open>
  The two branches of the loop body, in the order of the C statements: each gives the
  bytes it copies to \<^verbatim>\<open>dest + di\<close>, the new \<^verbatim>\<open>cw_enc\<close> and the string left in
  \<^verbatim>\<open>substr_ch\<close>. In the second branch \<^verbatim>\<open>substr_ch[0]\<close> is read back after the copy from
  \<^verbatim>\<open>dict[cw_enc]\<close>; when that copy was empty the byte is not one this iteration wrote.
\<close>

definition decode_known :: "dstate \<Rightarrow> codeword \<Rightarrow> fault + (byte list \<times> codeword \<times> byte list)" where
  "decode_known s cw =
     (case copy_entry s cw of
        Inl f \<Rightarrow> Inl f
      | Inr e \<Rightarrow>
          if \<not> dest_room s (length e) then Inl DestOverflow
          else (case first_byte s cw of
                  Inl f \<Rightarrow> Inl f
                | Inr c \<Rightarrow>
                    (case copy_entry s (cw_prev s) of
                       Inl f \<Rightarrow> Inl f
                     | Inr p \<Rightarrow>
                         if BUF_SIZE \<le> length p then Inl SubstrOverflow
                         else Inr (e, cw, p @ [c]))))"

definition decode_unknown :: "dstate \<Rightarrow> fault + (byte list \<times> codeword \<times> byte list)" where
  "decode_unknown s =
     (case copy_entry s (cw_enc s) of
        Inl f \<Rightarrow> Inl f
      | Inr q \<Rightarrow>
          (case q of
             [] \<Rightarrow> Inl (EmptyEntry (cw_enc s))
           | c # _ \<Rightarrow>
               if BUF_SIZE \<le> length q then Inl SubstrOverflow
               else if \<not> dest_room s (length q + 1) then Inl DestOverflow
               else Inr (q @ [c], dict_next s, q @ [c])))"

text \<open>
  \<^verbatim>\<open>if (dict_next == dict_size) { dict_size *= 2; realloc ...; memset ... }\<close>. \<open>grow\<close> is
  the size of the two arrays when the new entry is written; the multiplication wraps,
  as \<^verbatim>\<open>unsigned int\<close> does. \<^verbatim>\<open>realloc\<close> keeps the slots written so far.
  \<^verbatim>\<open>memset(dict_lens + dict_next, 0, dict_size - dict_next)\<close> clears that many bytes, not
  that many slots: the slots of four bytes it clears whole hold the length 0 from then
  on (\<open>zeroed\<close>), and a slot it clears in part (\<open>part_zeroed\<close>) holds no value the code
  wrote.
\<close>

definition grow :: "dstate \<Rightarrow> 32 word" where
  "grow s = (if dict_next s = dict_size s then dict_size s * 2 else dict_size s)"

definition zeroed :: "dstate \<Rightarrow> codeword \<Rightarrow> bool" where
  "zeroed s k \<longleftrightarrow>
     dict_next s = dict_size s \<and> unat (dict_next s) \<le> unat k \<and>
     unat k < unat (dict_next s) + unat (grow s - dict_next s) div 4"

definition part_zeroed :: "dstate \<Rightarrow> codeword \<Rightarrow> bool" where
  "part_zeroed s k \<longleftrightarrow>
     dict_next s = dict_size s \<and> unat (grow s - dict_next s) mod 4 \<noteq> 0 \<and>
     unat k = unat (dict_next s) + unat (grow s - dict_next s) div 4"

definition cleared_lens :: "dstate \<Rightarrow> codeword \<rightharpoonup> nat" where
  "cleared_lens s =
     (\<lambda>k. if zeroed s k then Some 0 else if part_zeroed s k then None else dict_lens s k)"

text \<open>
  The end of the loop body: the new entry is written at \<^verbatim>\<open>dict_next\<close>, the counter moves
  on, \<^verbatim>\<open>cw_prev\<close> takes the codeword read.
\<close>

definition append_entry ::
  "dstate \<Rightarrow> codeword \<Rightarrow> byte list \<Rightarrow> codeword \<Rightarrow> byte list \<Rightarrow> dstate" where
  "append_entry s cw emitted enc substr_ch =
     \<lparr>dict = (dict s)(dict_next s \<mapsto> substr_ch),
      dict_lens = (cleared_lens s)(dict_next s \<mapsto> length substr_ch),
      dict_size = grow s,
      dict_next = dict_next s + 1,
      cw_prev = cw,
      cw_enc = enc,
      dest = dest s @ emitted,
      di = di s + of_nat (length emitted),
      dest_len = dest_len s\<rparr>"

definition decomp_step :: "dstate \<Rightarrow> codeword \<Rightarrow> fault + dstate" where
  "decomp_step s cw =
     (case (if cw < dict_next s then decode_known s cw else decode_unknown s) of
        Inl f \<Rightarrow> Inl f
      | Inr (emitted, enc, substr_ch) \<Rightarrow>
          if \<not> dict_next s < grow s then Inl (DictOverflow (dict_next s))
          else Inr (append_entry s cw emitted enc substr_ch))"

fun decomp_loop :: "dstate \<Rightarrow> codeword list \<Rightarrow> fault + dstate" where
  "decomp_loop s [] = Inr s"
| "decomp_loop s (cw # cws) =
     (case decomp_step s cw of
        Inl f \<Rightarrow> Inl f
      | Inr s' \<Rightarrow> decomp_loop s' cws)"

text \<open>
  The struct \<^verbatim>\<open>decompression_meta\<close> is declared in no file at hand; \<^verbatim>\<open>lzw.c\<close> and
  \<^verbatim>\<open>emacs_lzw.c\<close> use its fields \<^verbatim>\<open>str\<close> and \<^verbatim>\<open>dlen\<close>. In the model \<open>str\<close> is the list of
  the bytes copied to the allocation \<^verbatim>\<open>str\<close> points to, and \<open>dlen\<close> is the final
  \<^verbatim>\<open>di\<close>. The third field is not in the C struct: \<open>dest_len\<close> is the size of that
  allocation.
\<close>

record decompression_meta =
  str :: "byte list"
  dlen :: "32 word"
  dest_len :: "32 word"

text \<open>
  The state when the loop is entered: the arrays seeded, \<^verbatim>\<open>dest\<close> allocated with
  \<^verbatim>\<open>src[0] + 1\<close> bytes, the string \<open>e\<close> of the first content codeword \<open>c\<close> copied.
\<close>

definition decomp_init :: "codeword \<Rightarrow> codeword \<Rightarrow> byte list \<Rightarrow> dstate" where
  "decomp_init n c e =
     \<lparr>dict = seed_dict, dict_lens = seed_lens, dict_size = 257, dict_next = 257,
      cw_prev = c, cw_enc = c, dest = e, di = of_nat (length e), dest_len = n + 1\<rparr>"

definition lzw_decompress :: "codeword list \<Rightarrow> fault + decompression_meta" where
  "lzw_decompress src =
     (case src of
        [] \<Rightarrow> Inl (SrcOutOfBounds 0)
      | n # rest \<Rightarrow>
          (case rest of
             [] \<Rightarrow> Inl (SrcOutOfBounds 1)
           | c # cws \<Rightarrow>
               (case copy_entry (decomp_init n c []) c of
                  Inl f \<Rightarrow> Inl f
                | Inr e \<Rightarrow>
                    if \<not> dest_room (decomp_init n c []) (length e) then Inl DestOverflow
                    else (case decomp_loop (decomp_init n c e) cws of
                            Inl f \<Rightarrow> Inl f
                          | Inr s \<Rightarrow>
                              Inr \<lparr>str = dest s, dlen = di s,
                                   dest_len = dstate.dest_len s\<rparr>))))"

text \<open>Compressing a buffer and decompressing the stream that comes back.\<close>

definition roundtrip :: "byte list \<Rightarrow> fault + decompression_meta" where
  "roundtrip B = (case lzw_compress B of Inl f \<Rightarrow> Inl f | Inr cs \<Rightarrow> lzw_decompress cs)"

subsection \<open>Invariants of the decompressor's loop\<close>

text \<open>
  The state of the dictionary that the loop keeps: the counter is at least 257, index 0
  holds nothing, every index from 1 up to the counter holds a non-empty string together
  with its length, and \<^verbatim>\<open>cw_enc\<close> is one of these indices.
\<close>

definition wf_dict :: "dstate \<Rightarrow> bool" where
  "wf_dict s \<longleftrightarrow>
     257 \<le> unat (dict_next s) \<and> dict s 0 = None \<and>
     (\<forall>k. 1 \<le> unat k \<and> unat k < unat (dict_next s) \<longrightarrow>
        (\<exists>e. e \<noteq> [] \<and> dict s k = Some e \<and> dict_lens s k = Some (length e))) \<and>
     1 \<le> unat (cw_enc s) \<and> unat (cw_enc s) < unat (dict_next s)"

text \<open>
  A stream of content codewords in order: the codeword read when the counter is \<open>k\<close> is
  one of 1, ..., \<open>k\<close>, that is, an index already written or the one about to be.
\<close>

fun in_order :: "nat \<Rightarrow> codeword list \<Rightarrow> bool" where
  "in_order k [] = True"
| "in_order k (cw # cws) = (1 \<le> unat cw \<and> unat cw \<le> k \<and> in_order (Suc k) cws)"

section \<open>Auxiliary facts\<close>

subsection \<open>Words\<close>

lemma word32_eq_of_nat: "n < 2 ^ 32 \<Longrightarrow> ((k::32 word) = of_nat n) = (unat k = n)"
  by (auto simp: unat_of_nat)

lemma word8_eq_of_nat: "n < 256 \<Longrightarrow> ((k::8 word) = of_nat n) = (unat k = n)"
  by (auto simp: unat_of_nat)

lemma unat_byte_less: "unat (b::byte) < 256"
  using unsigned_less [of b] by simp

lemma unat_ucast_byte: "unat (ucast (b::byte) :: codeword) = unat b"
proof -
  have "unat b < 2 ^ 32" using unat_byte_less [of b] by simp
  then show ?thesis by (simp add: unsigned_ucast_eq take_bit_nat_eq_self)
qed

lemma ucast_byte_zero: "((ucast (b::byte) :: codeword) = 0) = (b = 0)"
proof
  assume "(ucast b :: codeword) = 0"
  then have "unat (ucast b :: codeword) = 0" by simp
  then show "b = 0" by (simp add: unat_ucast_byte unat_eq_0)
qed simp

lemma unat_succ: "x < (y::32 word) \<Longrightarrow> unat (x + 1) = Suc (unat x)"
proof -
  assume "x < y"
  then have "unat x < unat y" by (simp add: word_less_nat_alt)
  moreover have "unat y < 2 ^ 32" using unsigned_less [of y] by simp
  ultimately show ?thesis by (simp add: unat_word_ariths)
qed

lemma word_set_nat: "{k::32 word. 1 \<le> k \<and> k < x} = {k. 1 \<le> unat k \<and> unat k < unat x}"
  by (simp add: word_le_nat_alt word_less_nat_alt)

lemma word_range_nat: "((1::32 word) \<le> k \<and> k \<le> 256) = (1 \<le> unat k \<and> unat k \<le> 256)"
  by (simp add: word_le_nat_alt)

subsection \<open>The seeded dictionaries\<close>

text \<open>
  After its seeding loop the decompressor holds the one-byte string \<open>k - 1\<close>, with the
  length 1, at every index \<open>k\<close> from 1 to 256 and nothing else. The trie, numbered as the
  spec numbers it, holds every one-byte string \<open>[b]\<close> under the codeword \<open>b\<close>, and its
  next codeword is 257.
\<close>

lemma seed_dict_fold:
  "n \<le> 257 \<Longrightarrow>
   fold (\<lambda>c d. d(of_nat c \<mapsto> [of_nat (c - 1)])) [1..<n] Map.empty (k::codeword) =
   (if 1 \<le> unat k \<and> unat k < n then Some [of_nat (unat k - 1) :: byte] else None)"
proof (induction n)
  case 0
  then show ?case by simp
next
  case (Suc n)
  show ?case
  proof (cases "n = 0")
    case True
    then show ?thesis by auto
  next
    case False
    then have up: "[1..<Suc n] = [1..<n] @ [n]" by simp
    have n: "n < 2 ^ 32" using Suc.prems by simp
    have ih: "fold (\<lambda>c d. d(of_nat c \<mapsto> [of_nat (c - 1)])) [1..<n] Map.empty k =
      (if 1 \<le> unat k \<and> unat k < n then Some [of_nat (unat k - 1) :: byte] else None)"
      by (rule Suc.IH) (use Suc.prems in simp)
    show ?thesis
      unfolding up fold_append using False ih
      by (auto simp: word32_eq_of_nat [OF n] split: if_splits)
  qed
qed

lemma seed_dict_apply:
  "seed_dict k = (if 1 \<le> unat k \<and> unat k \<le> 256 then Some [ucast k - 1] else None)"
  unfolding seed_dict_def using seed_dict_fold [of 257 k] by (simp add: less_Suc_eq_le)

lemma seed_lens_fold:
  "n \<le> 257 \<Longrightarrow>
   fold (\<lambda>c d. d(of_nat c \<mapsto> 1)) [1..<n] Map.empty (k::codeword) =
   (if 1 \<le> unat k \<and> unat k < n then Some (1::nat) else None)"
proof (induction n)
  case 0
  then show ?case by simp
next
  case (Suc n)
  show ?case
  proof (cases "n = 0")
    case True
    then show ?thesis by auto
  next
    case False
    then have up: "[1..<Suc n] = [1..<n] @ [n]" by simp
    have n: "n < 2 ^ 32" using Suc.prems by simp
    have ih: "fold (\<lambda>c d. d(of_nat c \<mapsto> 1)) [1..<n] Map.empty k =
      (if 1 \<le> unat k \<and> unat k < n then Some (1::nat) else None)"
      by (rule Suc.IH) (use Suc.prems in simp)
    show ?thesis
      unfolding up fold_append using False ih
      by (auto simp: word32_eq_of_nat [OF n] split: if_splits)
  qed
qed

lemma seed_lens_apply:
  "seed_lens k = (if 1 \<le> unat k \<and> unat k \<le> 256 then Some 1 else None)"
  unfolding seed_lens_def using seed_lens_fold [of 257 k] by (simp add: less_Suc_eq_le)

lemma dom_seed_dict: "dom seed_dict = {k. 1 \<le> unat k \<and> unat k < 257}"
  by (auto simp: seed_dict_apply dom_def)

lemma trie_put_new:
  "entries t w = None \<Longrightarrow>
   trie_put t w = \<lparr>entries = (entries t)(w \<mapsto> next_cw t),
                    next_cw = (if next_cw t = 255 then 257 else next_cw t + 1)\<rparr>"
  by (simp add: trie_put_def)

lemma seed_trie_fold:
  "n \<le> 256 \<Longrightarrow>
   fold (\<lambda>c t. trie_put t [of_nat c]) [0..<n] trie_init =
   \<lparr>entries = (\<lambda>w. case w of [] \<Rightarrow> None
        | b # bs \<Rightarrow> if bs = [] \<and> unat b < n then Some (ucast b) else None),
    next_cw = (if n = 256 then 257 else of_nat n)\<rparr>"
proof (induction n)
  case 0
  then show ?case by (auto simp: trie_init_def fun_eq_iff split: list.splits)
next
  case (Suc n)
  let ?T = "fold (\<lambda>c t. trie_put t [of_nat c]) [0..<n] trie_init"
  let ?b = "of_nat n :: byte"
  have n: "n < 256" using Suc.prems by simp
  have T: "?T = \<lparr>entries = (\<lambda>w. case w of [] \<Rightarrow> None
        | b # bs \<Rightarrow> if bs = [] \<and> unat b < n then Some (ucast b) else None),
      next_cw = of_nat n\<rparr>"
    using Suc.IH n by simp
  have u: "unat ?b = n" using n by (simp add: unat_of_nat)
  have c: "(ucast ?b :: codeword) = of_nat n"
    by (metis u of_nat_unat)
  have beq: "(unat b < Suc n) = (unat b < n \<or> b = ?b)" for b :: byte
    unfolding word8_eq_of_nat [OF n] less_Suc_eq ..
  have none: "entries ?T [?b] = None" by (simp add: T u)
  have nx: "(if (of_nat n :: codeword) = 255 then 257 else of_nat n + 1) =
      (if Suc n = 256 then 257 else (of_nat (Suc n) :: codeword))"
  proof (cases "n = 255")
    case True
    then show ?thesis by simp
  next
    case False
    then have "unat (of_nat n :: codeword) \<noteq> 255" using n by (simp add: unat_of_nat)
    then have "(of_nat n :: codeword) \<noteq> 255" by auto
    then show ?thesis using False by simp
  qed
  have ent: "(entries ?T)([?b] \<mapsto> next_cw ?T) =
      (\<lambda>w. case w of [] \<Rightarrow> None
        | b # bs \<Rightarrow> if bs = [] \<and> unat b < Suc n then Some (ucast b) else None)"
    unfolding beq by (auto simp: T c fun_eq_iff u split: list.splits)
  have "fold (\<lambda>c t. trie_put t [of_nat c]) [0..<Suc n] trie_init = trie_put ?T [?b]"
    by simp
  also have "\<dots> = \<lparr>entries = (entries ?T)([?b] \<mapsto> next_cw ?T),
      next_cw = (if next_cw ?T = 255 then 257 else next_cw ?T + 1)\<rparr>"
    by (rule trie_put_new [OF none])
  also have "\<dots> = \<lparr>entries = (\<lambda>w. case w of [] \<Rightarrow> None
        | b # bs \<Rightarrow> if bs = [] \<and> unat b < Suc n then Some (ucast b) else None),
      next_cw = (if Suc n = 256 then 257 else of_nat (Suc n))\<rparr>"
    unfolding ent by (simp only: T trie.simps nx)
  finally show ?case .
qed

lemma seed_trie_eq:
  "seed_trie = \<lparr>entries = (\<lambda>w. case w of [] \<Rightarrow> None
        | b # bs \<Rightarrow> if bs = [] then Some (ucast b) else None), next_cw = 257\<rparr>"
  unfolding seed_trie_def
  by (auto simp: seed_trie_fold unat_byte_less fun_eq_iff split: list.splits)

lemma seed_trie_get1: "trie_get seed_trie [b] = ucast b"
  by (simp add: trie_get_def seed_trie_eq)

lemma seed_trie_get0: "trie_get seed_trie [] = 0"
  by (simp add: trie_get_def seed_trie_eq)

lemma seed_trie_entry1: "entries seed_trie [b] = Some (ucast b)"
  by (simp add: seed_trie_eq)

subsection \<open>The compressor\<close>

lemma compress_empty: "lzw_compress [] = Inr [0, 0]"
  by (simp add: lzw_compress_def compress_from_def seed_trie_get0)

lemma compress_single_nonzero:
  assumes "x \<noteq> 0"
  shows "lzw_compress [x] = Inr [1, ucast x]"
proof -
  have a: "trie_get seed_trie [x] \<noteq> 0"
    using assms by (simp add: seed_trie_get1 ucast_byte_zero)
  show ?thesis
    using a
    by (simp add: lzw_compress_def compress_from_def compress_step_def BUF_SIZE_def Let_def)
      (simp add: seed_trie_get1)
qed

lemma compress_single_zero: "lzw_compress [0] = Inr [1, 0, 0]"
proof -
  have a: "trie_get seed_trie [0] = 0" by (simp add: seed_trie_get1)
  have b: "trie_get (trie_put seed_trie [0]) [0] = 0"
    by (simp add: trie_get_def trie_put_def seed_trie_entry1)
  show ?thesis
    by (simp add: lzw_compress_def compress_from_def compress_step_def BUF_SIZE_def
        Let_def a b seed_trie_get0)
qed

text \<open>
  Whatever the trie holds when the scan starts, a one-byte buffer does not give the
  stream of the length 1 and the codeword 0: either the lookup of the byte answers 0,
  the loop emits a codeword, and the stream has three elements, or the last codeword is
  that answer and is not 0.
\<close>

lemma compress_from_single:
  "compress_from t [x] \<noteq> Inr [1, 0]"
  by (simp add: compress_from_def compress_step_def BUF_SIZE_def Let_def)

lemma compress_step_substr:
  "compress_step s c = Inr s' \<Longrightarrow> length (substr s') \<le> Suc (length (substr s))"
  by (auto simp: compress_step_def Let_def split: if_splits)

lemma compress_step_total:
  "length (substr s) < BUF_SIZE \<Longrightarrow> \<exists>s'. compress_step s c = Inr s'"
  by (simp add: compress_step_def Let_def)

lemma compress_loop_total:
  "length (substr s) + length B \<le> BUF_SIZE \<Longrightarrow> \<exists>s'. compress_loop s B = Inr s'"
proof (induction B arbitrary: s)
  case Nil
  then show ?case by simp
next
  case (Cons c B)
  then obtain s1 where s1: "compress_step s c = Inr s1"
    using compress_step_total [of s c] by auto
  have "length (substr s1) + length B \<le> BUF_SIZE"
    using compress_step_substr [OF s1] Cons.prems by simp
  then show ?case using Cons.IH [of s1] s1 by simp
qed

lemma lzw_compress_total:
  assumes "length B \<le> BUF_SIZE"
  shows "\<exists>cs. lzw_compress B = Inr cs"
proof -
  obtain s' where "compress_loop \<lparr>c_dict = seed_trie, substr = [], c_dest = []\<rparr> B = Inr s'"
    using compress_loop_total [of "\<lparr>c_dict = seed_trie, substr = [], c_dest = []\<rparr>" B] assms
    by auto
  then show ?thesis by (simp add: lzw_compress_def compress_from_def)
qed

lemma lzw_compress_hd:
  "lzw_compress B = Inr cs \<Longrightarrow> \<exists>rest. cs = of_nat (length B) # rest"
  by (auto simp: lzw_compress_def compress_from_def split: sum.splits)

subsection \<open>Reading the dictionary\<close>

lemma copy_entry_written:
  "dict s k = Some e \<Longrightarrow> dict_lens s k = Some (length e) \<Longrightarrow> copy_entry s k = Inr e"
  by (simp add: copy_entry_def)

lemma copy_entry_cleared:
  "dict_lens s k = Some 0 \<Longrightarrow> copy_entry s k = Inr []"
  by (simp add: copy_entry_def)

lemma copy_entry_unwritten:
  "dict_lens s k = None \<Longrightarrow> copy_entry s k = Inl (DictUnassigned k)"
  by (simp add: copy_entry_def)

lemma copy_entry_init:
  "copy_entry (decomp_init n c x) k =
     (if 1 \<le> unat k \<and> unat k \<le> 256 then Inr [ucast k - 1] else Inl (DictUnassigned k))"
  by (simp add: copy_entry_def decomp_init_def seed_lens_apply seed_dict_apply)

lemma first_byte_written: "dict s k = Some (c # r) \<Longrightarrow> first_byte s k = Inr c"
  by (simp add: first_byte_def)

lemma dest_room_init:
  "dest_room (decomp_init n c x) m = (length x mod 2 ^ 32 + m \<le> unat (n + 1))"
  by (simp add: dest_room_def decomp_init_def unat_of_nat)

subsection \<open>One iteration of the decompressor and the loop\<close>

lemma append_entry_sel:
  "dict (append_entry s cw emitted enc sub) = (dict s)(dict_next s \<mapsto> sub)"
  "dict_lens (append_entry s cw emitted enc sub) = (cleared_lens s)(dict_next s \<mapsto> length sub)"
  "dict_size (append_entry s cw emitted enc sub) = grow s"
  "dict_next (append_entry s cw emitted enc sub) = dict_next s + 1"
  "cw_prev (append_entry s cw emitted enc sub) = cw"
  "cw_enc (append_entry s cw emitted enc sub) = enc"
  "dest (append_entry s cw emitted enc sub) = dest s @ emitted"
  "di (append_entry s cw emitted enc sub) = di s + of_nat (length emitted)"
  "dstate.dest_len (append_entry s cw emitted enc sub) = dstate.dest_len s"
  by (simp_all add: append_entry_def)

lemma decomp_step_InrD:
  assumes "decomp_step s cw = Inr s'"
  obtains emitted enc sub where
    "(if cw < dict_next s then decode_known s cw else decode_unknown s) = Inr (emitted, enc, sub)"
    "dict_next s < grow s"
    "s' = append_entry s cw emitted enc sub"
  using assms unfolding decomp_step_def
  by (auto split: sum.splits if_splits)

lemma decode_known_InrD:
  assumes "decode_known s cw = Inr (emitted, enc, sub)"
  obtains c p where
    "copy_entry s cw = Inr emitted" "dest_room s (length emitted)" "first_byte s cw = Inr c"
    "copy_entry s (cw_prev s) = Inr p" "length p < BUF_SIZE" "enc = cw" "sub = p @ [c]"
  using assms unfolding decode_known_def
  by (auto split: sum.splits if_splits)

lemma decode_unknown_InrD:
  assumes "decode_unknown s = Inr (emitted, enc, sub)"
  obtains c r where
    "copy_entry s (cw_enc s) = Inr (c # r)" "length (c # r) < BUF_SIZE"
    "dest_room s (length (c # r) + 1)"
    "emitted = c # r @ [c]" "enc = dict_next s" "sub = c # r @ [c]"
  using assms unfolding decode_unknown_def
  by (auto split: sum.splits list.splits if_splits)

lemma decomp_step_sub:
  assumes "decomp_step s cw = Inr s'"
  obtains sub where "sub \<noteq> []" "dict s' = (dict s)(dict_next s \<mapsto> sub)"
    "dict_lens s' (dict_next s) = Some (length sub)"
proof -
  from assms obtain emitted enc sub where
    d: "(if cw < dict_next s then decode_known s cw else decode_unknown s) = Inr (emitted, enc, sub)"
    and s': "s' = append_entry s cw emitted enc sub"
    by (rule decomp_step_InrD)
  have "sub \<noteq> []"
  proof (cases "cw < dict_next s")
    case True
    then show ?thesis using d by (auto elim: decode_known_InrD)
  next
    case False
    then show ?thesis using d by (auto elim: decode_unknown_InrD)
  qed
  then show ?thesis using that s' by (simp add: append_entry_sel)
qed

lemma decomp_step_next:
  assumes "decomp_step s cw = Inr s'"
  shows "unat (dict_next s') = Suc (unat (dict_next s))"
  using assms by (elim decomp_step_InrD) (simp add: unat_succ append_entry_sel)

lemma decomp_step_next_word:
  assumes "decomp_step s cw = Inr s'"
  shows "dict_next s' = dict_next s + 1"
  using assms by (elim decomp_step_InrD) (simp add: append_entry_sel)

lemma decomp_step_dom:
  assumes "decomp_step s cw = Inr s'"
  shows "dom (dict s') = insert (dict_next s) (dom (dict s))"
  using assms by (elim decomp_step_InrD) (simp add: append_entry_sel)

lemma decomp_step_frame:
  assumes "decomp_step s cw = Inr s'" "k \<noteq> dict_next s"
  shows "dict s' k = dict s k"
  using assms by (elim decomp_step_InrD) (simp add: append_entry_sel)

lemma decomp_loop_append:
  "decomp_loop s (xs @ ys) =
     (case decomp_loop s xs of Inl f \<Rightarrow> Inl f | Inr t \<Rightarrow> decomp_loop t ys)"
  by (induction xs arbitrary: s) (auto split: sum.splits)

lemma decomp_loop_next:
  "decomp_loop s cws = Inr t \<Longrightarrow> unat (dict_next t) = unat (dict_next s) + length cws"
proof (induction cws arbitrary: s)
  case Nil
  then show ?case by simp
next
  case (Cons cw cws)
  then obtain s1 where s1: "decomp_step s cw = Inr s1" and t: "decomp_loop s1 cws = Inr t"
    by (auto split: sum.splits)
  show ?case
    using Cons.IH [OF t] decomp_step_next [OF s1] by simp
qed

lemma decomp_loop_dom:
  "decomp_loop s cws = Inr t \<Longrightarrow>
   dom (dict t) = dom (dict s) \<union> {k. unat (dict_next s) \<le> unat k \<and> unat k < unat (dict_next s) + length cws}"
proof (induction cws arbitrary: s)
  case Nil
  then show ?case by auto
next
  case (Cons cw cws)
  then obtain s1 where s1: "decomp_step s cw = Inr s1" and t: "decomp_loop s1 cws = Inr t"
    by (auto split: sum.splits)
  have "dom (dict t) = insert (dict_next s) (dom (dict s)) \<union>
      {k. Suc (unat (dict_next s)) \<le> unat k \<and> unat k < Suc (unat (dict_next s)) + length cws}"
    using Cons.IH [OF t] decomp_step_next [OF s1] decomp_step_dom [OF s1] by simp
  moreover have "insert (dict_next s) {k. Suc (unat (dict_next s)) \<le> unat k \<and> unat k < Suc (unat (dict_next s)) + length cws}
     = {k. unat (dict_next s) \<le> unat k \<and> unat k < unat (dict_next s) + length (cw # cws)}"
    by (auto simp: le_Suc_eq word_unat_eq_iff)
  ultimately show ?case by auto
qed

lemma decomp_loop_frame:
  "decomp_loop s cws = Inr t \<Longrightarrow> unat k < unat (dict_next s) \<Longrightarrow> dict t k = dict s k"
proof (induction cws arbitrary: s)
  case Nil
  then show ?case by simp
next
  case (Cons cw cws)
  then obtain s1 where s1: "decomp_step s cw = Inr s1" and t: "decomp_loop s1 cws = Inr t"
    by (auto split: sum.splits)
  have "unat k < unat (dict_next s1)"
    using decomp_step_next [OF s1] Cons.prems(2) by simp
  then have "dict t k = dict s1 k" by (rule Cons.IH [OF t])
  moreover have "k \<noteq> dict_next s" using Cons.prems(2) by auto
  ultimately show ?case using decomp_step_frame [OF s1] by simp
qed

lemma decomp_init_run_dom:
  assumes "decomp_loop (decomp_init n c e0) cws = Inr t"
  shows "dom (dict t) = {k. 1 \<le> unat k \<and> unat k < 257 + length cws}"
  using decomp_loop_dom [OF assms] by (auto simp: decomp_init_def dom_seed_dict)

lemma decomp_init_run_next:
  assumes "decomp_loop (decomp_init n c e0) cws = Inr t"
  shows "unat (dict_next t) = 257 + length cws"
  using decomp_loop_next [OF assms] by (simp add: decomp_init_def)

lemma decomp_init_run_seed:
  assumes "decomp_loop (decomp_init n c e0) cws = Inr t"
  shows "dict t k = (if 1 \<le> unat k \<and> unat k \<le> 256 then Some [ucast k - 1] else
     if unat k = 0 then None else dict t k)"
  using decomp_loop_frame [OF assms, of k] by (auto simp: decomp_init_def seed_dict_apply)

lemma decomp_step_unknown_any:
  "\<not> cw < dict_next s \<Longrightarrow>
   decomp_step s cw = map_sum id (\<lambda>t. t\<lparr>cw_prev := cw\<rparr>) (decomp_step s (dict_next s))"
  by (simp add: decomp_step_def append_entry_def split: sum.splits prod.splits)

text \<open>The two branches when every read and every copy stays in bounds.\<close>

lemma decomp_step_known:
  assumes "cw < dict_next s"
    and "copy_entry s cw = Inr e" and "dest_room s (length e)"
    and "first_byte s cw = Inr c"
    and "copy_entry s (cw_prev s) = Inr p" and "length p < BUF_SIZE"
    and "dict_next s < grow s"
  shows "decomp_step s cw = Inr (append_entry s cw e cw (p @ [c]))"
  using assms by (simp add: decomp_step_def decode_known_def)

lemma decomp_step_unknown:
  assumes "\<not> cw < dict_next s"
    and "copy_entry s (cw_enc s) = Inr (b # r)" and "length (b # r) < BUF_SIZE"
    and "dest_room s (length (b # r) + 1)"
    and "dict_next s < grow s"
  shows "decomp_step s cw = Inr (append_entry s cw (b # r @ [b]) (dict_next s) (b # r @ [b]))"
  using assms by (simp add: decomp_step_def decode_unknown_def)

subsection \<open>The size of the output allocation\<close>

text \<open>
  \<^verbatim>\<open>dest_len\<close> is read by nothing but the test that a copy fits. A step from a state
  with another \<^verbatim>\<open>dest_len\<close> is the same step, unless one of the two runs past its
  allocation.
\<close>

lemma dest_len_update_reads:
  "copy_entry (s\<lparr>dstate.dest_len := B\<rparr>) k = copy_entry s k"
  "first_byte (s\<lparr>dstate.dest_len := B\<rparr>) k = first_byte s k"
  "grow (s\<lparr>dstate.dest_len := B\<rparr>) = grow s"
  "cleared_lens (s\<lparr>dstate.dest_len := B\<rparr>) = cleared_lens s"
  "append_entry (s\<lparr>dstate.dest_len := B\<rparr>) cw emitted enc sub =
     (append_entry s cw emitted enc sub)\<lparr>dstate.dest_len := B\<rparr>"
  by (simp_all add: copy_entry_def first_byte_def grow_def cleared_lens_def zeroed_def
      part_zeroed_def append_entry_def fun_eq_iff split: option.splits)

lemma decode_known_dest_len:
  "decode_known s cw = Inl DestOverflow \<or>
   decode_known (s\<lparr>dstate.dest_len := B\<rparr>) cw = Inl DestOverflow \<or>
   decode_known (s\<lparr>dstate.dest_len := B\<rparr>) cw = decode_known s cw"
  by (simp add: decode_known_def dest_len_update_reads split: sum.splits)

lemma decode_unknown_dest_len:
  "decode_unknown s = Inl DestOverflow \<or>
   decode_unknown (s\<lparr>dstate.dest_len := B\<rparr>) = Inl DestOverflow \<or>
   decode_unknown (s\<lparr>dstate.dest_len := B\<rparr>) = decode_unknown s"
  by (simp add: decode_unknown_def dest_len_update_reads split: sum.splits list.splits)

lemma decomp_step_dest_len:
  "decomp_step s cw = Inl DestOverflow \<or>
   decomp_step (s\<lparr>dstate.dest_len := B\<rparr>) cw = Inl DestOverflow \<or>
   decomp_step (s\<lparr>dstate.dest_len := B\<rparr>) cw =
     map_sum id (\<lambda>t. t\<lparr>dstate.dest_len := B\<rparr>) (decomp_step s cw)"
proof (cases "cw < dict_next s")
  case True
  then show ?thesis
    using decode_known_dest_len [of s cw B]
    by (auto simp: decomp_step_def dest_len_update_reads split: sum.splits)
next
  case False
  then show ?thesis
    using decode_unknown_dest_len [of s B]
    by (auto simp: decomp_step_def dest_len_update_reads split: sum.splits)
qed

lemma decomp_loop_dest_len:
  "decomp_loop s cws = Inl DestOverflow \<or>
   decomp_loop (s\<lparr>dstate.dest_len := B\<rparr>) cws = Inl DestOverflow \<or>
   decomp_loop (s\<lparr>dstate.dest_len := B\<rparr>) cws =
     map_sum id (\<lambda>t. t\<lparr>dstate.dest_len := B\<rparr>) (decomp_loop s cws)"
proof (induction cws arbitrary: s)
  case Nil
  then show ?case by simp
next
  case (Cons cw cws)
  show ?case
  proof (cases "decomp_step s cw")
    case (Inl f)
    then show ?thesis using decomp_step_dest_len [of s cw B] by auto
  next
    case (Inr s1)
    then consider "decomp_step (s\<lparr>dstate.dest_len := B\<rparr>) cw = Inl DestOverflow"
      | "decomp_step (s\<lparr>dstate.dest_len := B\<rparr>) cw = Inr (s1\<lparr>dstate.dest_len := B\<rparr>)"
      using decomp_step_dest_len [of s cw B] by auto
    then show ?thesis
    proof cases
      case 1
      then show ?thesis by simp
    next
      case 2
      then show ?thesis using Cons.IH [of s1] Inr by simp
    qed
  qed
qed

lemma decomp_init_dest_len:
  "decomp_init m c e = (decomp_init n c e)\<lparr>dstate.dest_len := m + 1\<rparr>"
  by (simp add: decomp_init_def)

lemma lzw_decompress_dest_len:
  "lzw_decompress (n # rest) = Inl DestOverflow \<or>
   lzw_decompress (m # rest) = Inl DestOverflow \<or>
   lzw_decompress (m # rest) =
     map_sum id (\<lambda>r. r\<lparr>dest_len := m + 1\<rparr>) (lzw_decompress (n # rest))"
proof (cases rest)
  case Nil
  then show ?thesis by (simp add: lzw_decompress_def)
next
  case (Cons c cws)
  let ?e = "[ucast c - 1 :: byte]"
  consider (unseeded) "\<not> (1 \<le> unat c \<and> unat c \<le> 256)"
    | (tight_n) "1 \<le> unat c \<and> unat c \<le> 256" "\<not> dest_room (decomp_init n c []) 1"
    | (tight_m) "1 \<le> unat c \<and> unat c \<le> 256" "\<not> dest_room (decomp_init m c []) 1"
    | (run) "1 \<le> unat c \<and> unat c \<le> 256" "dest_room (decomp_init n c []) 1"
        "dest_room (decomp_init m c []) 1"
    by blast
  then show ?thesis
  proof cases
    case unseeded
    then have "lzw_decompress (n # rest) = Inl (DictUnassigned c)"
      and "lzw_decompress (m # rest) = Inl (DictUnassigned c)"
      by (auto simp: lzw_decompress_def Cons copy_entry_init)
    then show ?thesis by simp
  next
    case tight_n
    then have "lzw_decompress (n # rest) = Inl DestOverflow"
      by (simp add: lzw_decompress_def Cons copy_entry_init)
    then show ?thesis by simp
  next
    case tight_m
    then have "lzw_decompress (m # rest) = Inl DestOverflow"
      by (simp add: lzw_decompress_def Cons copy_entry_init)
    then show ?thesis by simp
  next
    case run
    have n: "lzw_decompress (n # rest) =
        (case decomp_loop (decomp_init n c ?e) cws of Inl f \<Rightarrow> Inl f
         | Inr s \<Rightarrow> Inr \<lparr>str = dest s, dlen = di s, dest_len = dstate.dest_len s\<rparr>)"
      using run by (simp add: lzw_decompress_def Cons copy_entry_init)
    have "lzw_decompress (m # rest) =
        (case decomp_loop (decomp_init m c ?e) cws of Inl f \<Rightarrow> Inl f
         | Inr s \<Rightarrow> Inr \<lparr>str = dest s, dlen = di s, dest_len = dstate.dest_len s\<rparr>)"
      using run by (simp add: lzw_decompress_def Cons copy_entry_init)
    then have m: "lzw_decompress (m # rest) =
        (case decomp_loop ((decomp_init n c ?e)\<lparr>dstate.dest_len := m + 1\<rparr>) cws of Inl f \<Rightarrow> Inl f
         | Inr s \<Rightarrow> Inr \<lparr>str = dest s, dlen = di s, dest_len = dstate.dest_len s\<rparr>)"
      by (simp only: decomp_init_dest_len [of m c ?e n])
    show ?thesis
      unfolding n m
      using decomp_loop_dest_len [of "decomp_init n c ?e" cws "m + 1"]
      by (auto split: sum.splits)
  qed
qed

text \<open>
  In a run \<^verbatim>\<open>di\<close> counts the bytes copied, and they fit the allocation. So a run that
  completes completes again, with the same bytes, in any allocation that holds them.
\<close>

lemma decomp_step_dest:
  assumes "decomp_step s cw = Inr s'"
    and "di s = of_nat (length (dest s))" and "length (dest s) \<le> unat (dstate.dest_len s)"
  shows "di s' = of_nat (length (dest s'))" and "length (dest s') \<le> unat (dstate.dest_len s')"
    and "\<exists>emitted. dest s' = dest s @ emitted" and "dstate.dest_len s' = dstate.dest_len s"
proof -
  from assms(1) obtain emitted enc sub where
    d: "(if cw < dict_next s then decode_known s cw else decode_unknown s) = Inr (emitted, enc, sub)"
    and s': "s' = append_entry s cw emitted enc sub"
    by (rule decomp_step_InrD)
  have len: "unat (di s) = length (dest s)"
  proof -
    have "unat (dstate.dest_len s) < 2 ^ 32"
      using unsigned_less [of "dstate.dest_len s"] by simp
    then have "length (dest s) < 2 ^ 32" using assms(3) by simp
    then show ?thesis using assms(2) by (simp add: unat_of_nat)
  qed
  have room: "dest_room s (length emitted)"
  proof (cases "cw < dict_next s")
    case True
    then show ?thesis using d by (auto elim: decode_known_InrD)
  next
    case False
    then show ?thesis using d by (auto elim!: decode_unknown_InrD)
  qed
  show "di s' = of_nat (length (dest s'))"
    using assms(2) by (simp add: s' append_entry_sel)
  show "length (dest s') \<le> unat (dstate.dest_len s')"
    using room len by (simp add: s' append_entry_sel dest_room_def)
  show "\<exists>emitted. dest s' = dest s @ emitted" by (simp add: s' append_entry_sel)
  show "dstate.dest_len s' = dstate.dest_len s" by (simp add: s' append_entry_sel)
qed

lemma decomp_loop_dest:
  assumes "decomp_loop s cws = Inr t"
    and "di s = of_nat (length (dest s))" and "length (dest s) \<le> unat (dstate.dest_len s)"
  shows "di t = of_nat (length (dest t)) \<and> length (dest t) \<le> unat (dstate.dest_len t) \<and>
         length (dest s) \<le> length (dest t) \<and> dstate.dest_len t = dstate.dest_len s"
  using assms
proof (induction cws arbitrary: s)
  case Nil
  then show ?case by simp
next
  case (Cons cw cws)
  then obtain s1 where s1: "decomp_step s cw = Inr s1" and t: "decomp_loop s1 cws = Inr t"
    by (auto split: sum.splits)
  note st = decomp_step_dest [OF s1 Cons.prems(2,3)]
  from Cons.IH [OF t st(1,2)] st(3,4) show ?case by auto
qed

lemma decomp_step_resize:
  assumes "decomp_step s cw = Inr s'"
    and "unat (di s) + (length (dest s') - length (dest s)) \<le> unat B"
  shows "decomp_step (s\<lparr>dstate.dest_len := B\<rparr>) cw = Inr (s'\<lparr>dstate.dest_len := B\<rparr>)"
proof -
  from assms(1) obtain emitted enc sub where
    d: "(if cw < dict_next s then decode_known s cw else decode_unknown s) = Inr (emitted, enc, sub)"
    and g: "dict_next s < grow s"
    and s': "s' = append_entry s cw emitted enc sub"
    by (rule decomp_step_InrD)
  have room: "dest_room (s\<lparr>dstate.dest_len := B\<rparr>) (length emitted)"
    using assms(2) by (simp add: s' append_entry_sel dest_room_def)
  have "(if cw < dict_next s then decode_known (s\<lparr>dstate.dest_len := B\<rparr>) cw
         else decode_unknown (s\<lparr>dstate.dest_len := B\<rparr>)) = Inr (emitted, enc, sub)"
  proof (cases "cw < dict_next s")
    case True
    then have "decode_known s cw = Inr (emitted, enc, sub)" using d by simp
    then show ?thesis
      using True room
      by (auto simp: decode_known_def dest_len_update_reads split: sum.splits if_splits)
  next
    case False
    then have "decode_unknown s = Inr (emitted, enc, sub)" using d by simp
    then show ?thesis
      using False room
      by (auto simp: decode_unknown_def dest_len_update_reads
          split: sum.splits list.splits if_splits)
  qed
  then show ?thesis
    using g by (simp add: decomp_step_def dest_len_update_reads s')
qed

lemma decomp_loop_resize_fits:
  assumes "decomp_loop s cws = Inr t"
    and "di s = of_nat (length (dest s))" and "length (dest s) \<le> unat (dstate.dest_len s)"
    and "length (dest t) \<le> unat B"
  shows "decomp_loop (s\<lparr>dstate.dest_len := B\<rparr>) cws = Inr (t\<lparr>dstate.dest_len := B\<rparr>)"
  using assms
proof (induction cws arbitrary: s)
  case Nil
  then show ?case by simp
next
  case (Cons cw cws)
  then obtain s1 where s1: "decomp_step s cw = Inr s1" and t: "decomp_loop s1 cws = Inr t"
    by (auto split: sum.splits)
  note st = decomp_step_dest [OF s1 Cons.prems(2,3)]
  have mono: "length (dest s1) \<le> length (dest t)"
    using decomp_loop_dest [OF t st(1,2)] by simp
  have len: "unat (di s) = length (dest s)"
  proof -
    have "unat (dstate.dest_len s) < 2 ^ 32"
      using unsigned_less [of "dstate.dest_len s"] by simp
    then have "length (dest s) < 2 ^ 32" using Cons.prems(3) by simp
    then show ?thesis using Cons.prems(2) by (simp add: unat_of_nat)
  qed
  have "length (dest s) \<le> length (dest s1)" using st(3) by auto
  then have "unat (di s) + (length (dest s1) - length (dest s)) \<le> unat B"
    using len mono Cons.prems(4) by simp
  then have "decomp_step (s\<lparr>dstate.dest_len := B\<rparr>) cw = Inr (s1\<lparr>dstate.dest_len := B\<rparr>)"
    by (rule decomp_step_resize [OF s1])
  moreover have "decomp_loop (s1\<lparr>dstate.dest_len := B\<rparr>) cws = Inr (t\<lparr>dstate.dest_len := B\<rparr>)"
    by (rule Cons.IH [OF t st(1,2) Cons.prems(4)])
  ultimately show ?case by simp
qed

lemma decomp_loop_resize:
  assumes "decomp_loop s cws = Inr t"
    and "di s = of_nat (length (dest s))" and "length (dest s) \<le> unat (dstate.dest_len s)"
    and "length (dest s) \<le> unat B"
  shows "decomp_loop (s\<lparr>dstate.dest_len := B\<rparr>) cws =
           (if length (dest t) \<le> unat B then Inr (t\<lparr>dstate.dest_len := B\<rparr>)
            else Inl DestOverflow)"
proof (cases "length (dest t) \<le> unat B")
  case True
  then show ?thesis using decomp_loop_resize_fits [OF assms(1,2,3)] by simp
next
  case False
  from decomp_loop_dest_len [of s cws B] assms(1)
  consider "decomp_loop (s\<lparr>dstate.dest_len := B\<rparr>) cws = Inl DestOverflow"
    | "decomp_loop (s\<lparr>dstate.dest_len := B\<rparr>) cws = Inr (t\<lparr>dstate.dest_len := B\<rparr>)"
    by auto
  then show ?thesis
  proof cases
    case 1
    then show ?thesis using False by simp
  next
    case 2
    have "length (dest (t\<lparr>dstate.dest_len := B\<rparr>)) \<le> unat (dstate.dest_len (t\<lparr>dstate.dest_len := B\<rparr>))"
      using decomp_loop_dest [OF 2] assms(2,4) by simp
    then show ?thesis using False by simp
  qed
qed

lemma lzw_decompress_InrD:
  assumes "lzw_decompress src = Inr r"
  obtains n c cws t where "src = n # c # cws" "1 \<le> unat c \<and> unat c \<le> 256"
    "dest_room (decomp_init n c []) 1"
    "decomp_loop (decomp_init n c [ucast c - 1]) cws = Inr t"
    "r = \<lparr>str = dest t, dlen = di t, dest_len = dstate.dest_len t\<rparr>"
  using assms unfolding lzw_decompress_def
  by (auto simp: copy_entry_init split: list.splits sum.splits if_splits)

lemma decomp_init_dest:
  assumes "dest_room (decomp_init n c []) (length e)"
  shows "di (decomp_init n c e) = of_nat (length (dest (decomp_init n c e)))"
    and "length (dest (decomp_init n c e)) \<le> unat (dstate.dest_len (decomp_init n c e))"
  using assms by (simp_all add: decomp_init_def dest_room_def)

lemma lzw_decompress_fits:
  assumes "lzw_decompress src = Inr r"
  shows "dlen r = of_nat (length (str r))" and "length (str r) \<le> unat (dest_len r)"
    and "dest_len r = hd src + 1" and "str r \<noteq> []"
proof -
  from assms obtain n c cws t where src: "src = n # c # cws"
    and room: "dest_room (decomp_init n c []) 1"
    and run: "decomp_loop (decomp_init n c [ucast c - 1]) cws = Inr t"
    and r: "r = \<lparr>str = dest t, dlen = di t, dest_len = dstate.dest_len t\<rparr>"
    by (rule lzw_decompress_InrD)
  have room': "dest_room (decomp_init n c []) (length [ucast c - 1 :: byte])"
    using room by simp
  note d = decomp_loop_dest [OF run decomp_init_dest [OF room']]
  show "dlen r = of_nat (length (str r))" using d by (simp add: r)
  show "length (str r) \<le> unat (dest_len r)" using conjunct1 [OF conjunct2 [OF d]] by (simp add: r)
  show "dest_len r = hd src + 1" using d by (simp add: r src decomp_init_def)
  have "length (dest (decomp_init n c [ucast c - 1])) \<le> length (dest t)" using d by simp
  then show "str r \<noteq> []" by (auto simp: r decomp_init_def)
qed

lemma lzw_decompress_resize:
  assumes "lzw_decompress (n # rest) = Inr r"
  shows "lzw_decompress (m # rest) =
           (if length (str r) \<le> unat (m + 1) then Inr (r\<lparr>dest_len := m + 1\<rparr>)
            else Inl DestOverflow)"
proof -
  from assms obtain n' c cws t where src: "n # rest = n' # c # cws"
    and c: "1 \<le> unat c \<and> unat c \<le> 256"
    and room: "dest_room (decomp_init n' c []) 1"
    and run: "decomp_loop (decomp_init n' c [ucast c - 1]) cws = Inr t"
    and r: "r = \<lparr>str = dest t, dlen = di t, dest_len = dstate.dest_len t\<rparr>"
    by (rule lzw_decompress_InrD)
  let ?e = "[ucast c - 1 :: byte]"
  have rest: "rest = c # cws" and n': "n' = n" using src by simp_all
  have room': "dest_room (decomp_init n c []) (length ?e)" using room n' by simp
  note inv = decomp_init_dest [OF room']
  note d = decomp_loop_dest [OF run [unfolded n'] inv]
  show ?thesis
  proof (cases "dest_room (decomp_init m c []) 1")
    case False
    then have "unat (m + 1) = 0" by (simp add: dest_room_init)
    moreover have "0 < length (str r)" using lzw_decompress_fits(4) [OF assms] by simp
    ultimately show ?thesis
      using False c by (simp add: lzw_decompress_def rest copy_entry_init)
  next
    case True
    then have first: "length (dest (decomp_init n c ?e)) \<le> unat (m + 1)"
      unfolding dest_room_init by (simp add: decomp_init_def)
    have "lzw_decompress (m # rest) =
        (case decomp_loop (decomp_init m c ?e) cws of Inl f \<Rightarrow> Inl f
         | Inr s \<Rightarrow> Inr \<lparr>str = dest s, dlen = di s, dest_len = dstate.dest_len s\<rparr>)"
      using True c by (simp add: lzw_decompress_def rest copy_entry_init)
    also have "decomp_init m c ?e = (decomp_init n c ?e)\<lparr>dstate.dest_len := m + 1\<rparr>"
      by (rule decomp_init_dest_len)
    finally show ?thesis
      unfolding decomp_loop_resize [OF run [unfolded n'] inv first]
      by (simp add: r)
  qed
qed

subsection \<open>The dictionary in a run\<close>

lemma cleared_lens_below:
  "unat k < unat (dict_next s) \<Longrightarrow> cleared_lens s k = dict_lens s k"
  by (simp add: cleared_lens_def zeroed_def part_zeroed_def)

lemma wf_dict_init:
  assumes "1 \<le> unat c" "unat c \<le> 256"
  shows "wf_dict (decomp_init n c e)"
  using assms by (simp add: wf_dict_def decomp_init_def seed_dict_apply seed_lens_apply)

lemma wf_dict_entry:
  assumes "wf_dict s" "1 \<le> unat k" "unat k < unat (dict_next s)"
  obtains b r where "dict s k = Some (b # r)" "dict_lens s k = Some (length (b # r))"
    "copy_entry s k = Inr (b # r)" "first_byte s k = Inr b"
proof -
  from assms obtain e where e: "e \<noteq> []" "dict s k = Some e" "dict_lens s k = Some (length e)"
    unfolding wf_dict_def by blast
  then obtain b r where "e = b # r" by (cases e) auto
  then show ?thesis
    using e that by (simp add: copy_entry_written first_byte_written)
qed

lemma wf_dict_cw_enc:
  assumes "wf_dict s"
  obtains b r where "copy_entry s (cw_enc s) = Inr (b # r)" "dict s (cw_enc s) = Some (b # r)"
proof -
  have "1 \<le> unat (cw_enc s)" "unat (cw_enc s) < unat (dict_next s)"
    using assms by (simp_all add: wf_dict_def)
  then show ?thesis using wf_dict_entry [OF assms] that by metis
qed

lemma first_byte_nonzero:
  assumes "wf_dict s" "first_byte s k = Inr c"
  shows "1 \<le> unat k"
proof -
  have "dict s k \<noteq> None" using assms(2) by (auto simp: first_byte_def split: option.splits)
  then have "k \<noteq> 0" using assms(1) by (auto simp: wf_dict_def)
  then show ?thesis by (simp add: unat_gt_0 Suc_le_eq)
qed

lemma wf_dict_step:
  assumes wf: "wf_dict s" and step: "decomp_step s cw = Inr s'"
  shows "wf_dict s'"
proof -
  from step obtain emitted enc sub where
    d: "(if cw < dict_next s then decode_known s cw else decode_unknown s) = Inr (emitted, enc, sub)"
    and s': "s' = append_entry s cw emitted enc sub"
    by (rule decomp_step_InrD)
  from step obtain sub' where sub: "sub' \<noteq> []" "dict s' = (dict s)(dict_next s \<mapsto> sub')"
    "dict_lens s' (dict_next s) = Some (length sub')"
    by (rule decomp_step_sub)
  have nx: "unat (dict_next s') = Suc (unat (dict_next s))" by (rule decomp_step_next [OF step])
  have ge: "257 \<le> unat (dict_next s)" using wf by (simp add: wf_dict_def)
  then have n0: "dict_next s \<noteq> 0" by auto
  have zero: "dict s' 0 = None" using wf n0 by (simp add: sub wf_dict_def)
  have ent: "\<exists>e. e \<noteq> [] \<and> dict s' k = Some e \<and> dict_lens s' k = Some (length e)"
    if k: "1 \<le> unat k" "unat k < unat (dict_next s')" for k
  proof (cases "k = dict_next s")
    case True
    then show ?thesis using sub by simp
  next
    case False
    then have lt: "unat k < unat (dict_next s)" using k nx by (simp add: word_unat_eq_iff)
    then obtain e where "e \<noteq> []" "dict s k = Some e" "dict_lens s k = Some (length e)"
      using wf k(1) unfolding wf_dict_def by blast
    moreover have "dict_lens s' k = dict_lens s k"
      using False lt by (simp add: s' append_entry_sel cleared_lens_below)
    ultimately show ?thesis using False by (simp add: sub)
  qed
  have enc: "1 \<le> unat (cw_enc s') \<and> unat (cw_enc s') < unat (dict_next s')"
  proof (cases "cw < dict_next s")
    case True
    then have k: "decode_known s cw = Inr (emitted, enc, sub)" using d by simp
    then obtain c where "first_byte s cw = Inr c" "enc = cw"
      by (auto elim: decode_known_InrD)
    then show ?thesis
      using first_byte_nonzero [OF wf] True nx
      by (simp add: s' append_entry_sel word_less_nat_alt)
  next
    case False
    then have "decode_unknown s = Inr (emitted, enc, sub)" using d by simp
    then have "enc = dict_next s" by (auto elim!: decode_unknown_InrD)
    then show ?thesis using ge nx by (simp add: s' append_entry_sel)
  qed
  show ?thesis
    unfolding wf_dict_def using ge nx zero ent enc by simp
qed

lemma wf_dict_loop:
  "wf_dict s \<Longrightarrow> decomp_loop s cws = Inr t \<Longrightarrow> wf_dict t"
proof (induction cws arbitrary: s)
  case Nil
  then show ?case by simp
next
  case (Cons cw cws)
  then obtain s1 where s1: "decomp_step s cw = Inr s1" and t: "decomp_loop s1 cws = Inr t"
    by (auto split: sum.splits)
  show ?case by (rule Cons.IH [OF wf_dict_step [OF Cons.prems(1) s1] t])
qed

text \<open>
  The second branch in a state of a run: the string of \<^verbatim>\<open>cw_enc\<close> is there, and the
  iteration completes unless that string fills \<^verbatim>\<open>substr_ch\<close>, the copy to \<^verbatim>\<open>dest\<close> does
  not fit, or the counter has reached a size that cannot be doubled.
\<close>

lemma decomp_step_unknown_cases:
  assumes "\<not> cw < dict_next s" "copy_entry s (cw_enc s) = Inr (b # r)"
  shows "decomp_step s cw =
     (if BUF_SIZE \<le> length (b # r) then Inl SubstrOverflow
      else if \<not> dest_room s (length (b # r) + 1) then Inl DestOverflow
      else if \<not> dict_next s < grow s then Inl (DictOverflow (dict_next s))
      else Inr (append_entry s cw (b # r @ [b]) (dict_next s) (b # r @ [b])))"
  using assms by (simp add: decomp_step_def decode_unknown_def)

subsection \<open>Streams in order\<close>

lemma grow_room:
  assumes "unat (dict_next s) \<le> unat (dict_size s)" "unat (dict_size s) \<le> 2 * unat (dict_next s)"
    "0 < unat (dict_next s)" "unat (dict_next s) < 2 ^ 30"
  shows "dict_next s < grow s"
    and "Suc (unat (dict_next s)) \<le> unat (grow s)"
    and "unat (grow s) \<le> 2 * Suc (unat (dict_next s))"
proof -
  have two: "unat (dict_size s * 2) = 2 * unat (dict_size s)"
    using assms by (simp add: unat_word_ariths)
  show a: "Suc (unat (dict_next s)) \<le> unat (grow s)"
  proof (cases "dict_next s = dict_size s")
    case True
    then show ?thesis using assms two by (simp add: grow_def)
  next
    case False
    then have "unat (dict_next s) \<noteq> unat (dict_size s)" by (simp add: word_unat_eq_iff)
    then show ?thesis using assms False by (simp add: grow_def)
  qed
  then show "dict_next s < grow s" by (simp add: word_less_nat_alt)
  show "unat (grow s) \<le> 2 * Suc (unat (dict_next s))"
    using assms two by (simp add: grow_def)
qed

lemma decomp_step_progress:
  assumes wf: "wf_dict s"
    and prev: "1 \<le> unat (cw_prev s)" "unat (cw_prev s) < unat (dict_next s)"
    and cw: "1 \<le> unat cw" "unat cw \<le> unat (dict_next s)"
    and len: "\<forall>k e. dict s k = Some e \<longrightarrow> length e \<le> L" and L: "L < BUF_SIZE"
    and di: "di s = of_nat (length (dest s))"
    and room: "length (dest s) + Suc L \<le> unat (dstate.dest_len s)"
    and cap: "unat (dict_next s) \<le> unat (dict_size s)"
      "unat (dict_size s) \<le> 2 * unat (dict_next s)" "unat (dict_next s) < 2 ^ 30"
  obtains s' where "decomp_step s cw = Inr s'" "cw_prev s' = cw"
    "\<forall>k e. dict s' k = Some e \<longrightarrow> length e \<le> Suc L"
    "length (dest s') \<le> length (dest s) + Suc L"
    "unat (dict_next s') \<le> unat (dict_size s')"
    "unat (dict_size s') \<le> 2 * unat (dict_next s')"
proof -
  have ge: "257 \<le> unat (dict_next s)" using wf by (simp add: wf_dict_def)
  then have pos: "0 < unat (dict_next s)" by simp
  note g = grow_room [OF cap(1,2) pos cap(3)]
  have dlen: "unat (di s) = length (dest s)"
  proof -
    have "unat (dstate.dest_len s) < 2 ^ 32"
      using unsigned_less [of "dstate.dest_len s"] by simp
    then have "length (dest s) < 2 ^ 32" using room by simp
    then show ?thesis using di by (simp add: unat_of_nat)
  qed
  have bound: "length e \<le> L" if "dict s k = Some e" for k e using len that by blast
  obtain emitted sub enc where
    step: "decomp_step s cw = Inr (append_entry s cw emitted enc sub)"
    and em: "length emitted \<le> Suc L" and sb: "length sub \<le> Suc L"
  proof (cases "cw < dict_next s")
    case True
    then have lt: "unat cw < unat (dict_next s)" by (simp add: word_less_nat_alt)
    from wf cw(1) lt obtain b r where e: "dict s cw = Some (b # r)"
      "copy_entry s cw = Inr (b # r)" "first_byte s cw = Inr b"
      by (rule wf_dict_entry)
    from wf prev obtain b' r' where p: "dict s (cw_prev s) = Some (b' # r')"
      "copy_entry s (cw_prev s) = Inr (b' # r')"
      by (rule wf_dict_entry)
    have le: "length (b # r) \<le> L" "length (b' # r') \<le> L"
      using bound [OF e(1)] bound [OF p(1)] by simp_all
    have "dest_room s (length (b # r))"
      using le room dlen by (simp add: dest_room_def)
    moreover have "length (b' # r') < BUF_SIZE" using le L by simp
    ultimately have "decomp_step s cw = Inr (append_entry s cw (b # r) cw ((b' # r') @ [b]))"
      using decomp_step_known [OF True e(2) _ e(3) p(2) _ g(1)] by blast
    then show ?thesis using le that by simp
  next
    case False
    from wf obtain b r where q: "copy_entry s (cw_enc s) = Inr (b # r)"
      "dict s (cw_enc s) = Some (b # r)"
      by (rule wf_dict_cw_enc)
    have le: "length (b # r) \<le> L" using bound [OF q(2)] by simp
    have "dest_room s (length (b # r) + 1)"
      using le room dlen by (simp add: dest_room_def)
    moreover have "length (b # r) < BUF_SIZE" using le L by simp
    ultimately have "decomp_step s cw =
        Inr (append_entry s cw (b # r @ [b]) (dict_next s) (b # r @ [b]))"
      using decomp_step_unknown [OF False q(1) _ _ g(1)] by blast
    then show ?thesis using le that by simp
  qed
  let ?s' = "append_entry s cw emitted enc sub"
  have nx: "unat (dict_next ?s') = Suc (unat (dict_next s))"
    by (rule decomp_step_next [OF step])
  show ?thesis
  proof (rule that [OF step])
    show "cw_prev ?s' = cw" by (simp add: append_entry_sel)
    show "\<forall>k e. dict ?s' k = Some e \<longrightarrow> length e \<le> Suc L"
      using sb bound by (auto simp: append_entry_sel le_Suc_eq split: if_splits)
    show "length (dest ?s') \<le> length (dest s) + Suc L"
      using em by (simp add: append_entry_sel)
    show "unat (dict_next ?s') \<le> unat (dict_size ?s')"
      using g(2) nx by (simp add: append_entry_sel)
    show "unat (dict_size ?s') \<le> 2 * unat (dict_next ?s')"
      using g(3) nx by (simp add: append_entry_sel)
  qed
qed

lemma decomp_loop_progress:
  assumes "wf_dict s"
    and "1 \<le> unat (cw_prev s)" "unat (cw_prev s) < unat (dict_next s)"
    and "in_order (unat (dict_next s)) cws"
    and "\<forall>k e. dict s k = Some e \<longrightarrow> length e + length cws < M" and "M \<le> BUF_SIZE"
    and "di s = of_nat (length (dest s))"
    and "length (dest s) + length cws * M \<le> unat (dstate.dest_len s)"
    and "unat (dict_next s) \<le> unat (dict_size s)"
      "unat (dict_size s) \<le> 2 * unat (dict_next s)"
      "unat (dict_next s) + length cws < 2 ^ 30"
  shows "\<exists>t. decomp_loop s cws = Inr t"
  using assms
proof (induction cws arbitrary: s)
  case Nil
  then show ?case by simp
next
  case (Cons cw cws)
  define L where "L = M - length (cw # cws) - 1"
  have lenL: "\<forall>k e. dict s k = Some e \<longrightarrow> length e \<le> L"
    using Cons.prems(5) unfolding L_def by fastforce
  have ex: "\<exists>e k. dict s k = Some e"
    using Cons.prems(1,2,3) by (meson wf_dict_entry)
  then have M: "Suc (length cws) < M" using Cons.prems(5) by fastforce
  then have LM: "Suc L + length cws < M" "Suc L \<le> M" "L < BUF_SIZE"
    using Cons.prems(6) unfolding L_def by simp_all
  have cw: "1 \<le> unat cw" "unat cw \<le> unat (dict_next s)" and rest: "in_order (Suc (unat (dict_next s))) cws"
    using Cons.prems(4) by simp_all
  have room: "length (dest s) + Suc L \<le> unat (dstate.dest_len s)"
  proof -
    have "Suc L \<le> length (cw # cws) * M" using LM(2) by simp
    then show ?thesis using Cons.prems(8) by linarith
  qed
  have cap3: "unat (dict_next s) < 2 ^ 30" using Cons.prems(11) by simp
  from decomp_step_progress [OF Cons.prems(1,2,3) cw lenL LM(3) Cons.prems(7) room Cons.prems(9,10) cap3]
  obtain s' where s': "decomp_step s cw = Inr s'" and pv: "cw_prev s' = cw"
    and len': "\<forall>k e. dict s' k = Some e \<longrightarrow> length e \<le> Suc L"
    and dst: "length (dest s') \<le> length (dest s) + Suc L"
    and cap': "unat (dict_next s') \<le> unat (dict_size s')"
      "unat (dict_size s') \<le> 2 * unat (dict_next s')"
    by blast
  have nx: "unat (dict_next s') = Suc (unat (dict_next s))" by (rule decomp_step_next [OF s'])
  have room0: "length (dest s) \<le> unat (dstate.dest_len s)" using Cons.prems(8) by linarith
  note d = decomp_step_dest [OF s' Cons.prems(7) room0]
  have "\<exists>t. decomp_loop s' cws = Inr t"
  proof (rule Cons.IH)
    show "wf_dict s'" by (rule wf_dict_step [OF Cons.prems(1) s'])
    show "1 \<le> unat (cw_prev s')" using cw pv by simp
    show "unat (cw_prev s') < unat (dict_next s')" using cw pv nx by simp
    show "in_order (unat (dict_next s')) cws" using rest nx by simp
    show "\<forall>k e. dict s' k = Some e \<longrightarrow> length e + length cws < M"
      using len' LM(1) by fastforce
    show "M \<le> BUF_SIZE" by (rule Cons.prems(6))
    show "di s' = of_nat (length (dest s'))" by (rule d(1))
    show "length (dest s') + length cws * M \<le> unat (dstate.dest_len s')"
    proof -
      have "length (dest s') + length cws * M \<le> length (dest s) + Suc L + length cws * M"
        using dst by simp
      also have "\<dots> \<le> length (dest s) + length (cw # cws) * M" using LM(2) by simp
      finally show ?thesis using Cons.prems(8) d(4) by simp
    qed
    show "unat (dict_next s') \<le> unat (dict_size s')" by (rule cap'(1))
    show "unat (dict_size s') \<le> 2 * unat (dict_next s')" by (rule cap'(2))
    show "unat (dict_next s') + length cws < 2 ^ 30" using Cons.prems(11) nx by simp
  qed
  then show ?case using s' by simp
qed

lemma lzw_decompress_in_order:
  assumes c: "1 \<le> unat c" "unat c \<le> 256"
    and ord: "in_order 257 cws"
    and len: "length cws + 2 \<le> BUF_SIZE"
    and room: "1 + length cws * (length cws + 2) \<le> unat (n + 1)"
  shows "\<exists>t. decomp_loop (decomp_init n c [ucast c - 1]) cws = Inr t \<and>
             lzw_decompress (n # c # cws) =
               Inr \<lparr>str = dest t, dlen = di t, dest_len = dstate.dest_len t\<rparr>"
proof -
  let ?s = "decomp_init n c [ucast c - 1]"
  have "\<exists>t. decomp_loop ?s cws = Inr t"
  proof (rule decomp_loop_progress [where M = "length cws + 2"])
    show "wf_dict ?s" by (rule wf_dict_init [OF c])
    show "1 \<le> unat (cw_prev ?s)" "unat (cw_prev ?s) < unat (dict_next ?s)"
      using c by (simp_all add: decomp_init_def)
    show "in_order (unat (dict_next ?s)) cws" using ord by (simp add: decomp_init_def)
    show "\<forall>k e. dict ?s k = Some e \<longrightarrow> length e + length cws < length cws + 2"
      by (auto simp: decomp_init_def seed_dict_apply split: if_splits)
    show "length cws + 2 \<le> BUF_SIZE" by (rule len)
    show "di ?s = of_nat (length (dest ?s))" by (simp add: decomp_init_def)
    show "length (dest ?s) + length cws * (length cws + 2) \<le> unat (dstate.dest_len ?s)"
      using room by (simp add: decomp_init_def)
    show "unat (dict_next ?s) \<le> unat (dict_size ?s)"
      "unat (dict_size ?s) \<le> 2 * unat (dict_next ?s)"
      by (simp_all add: decomp_init_def)
    show "unat (dict_next ?s) + length cws < 2 ^ 30"
      using len by (simp add: decomp_init_def BUF_SIZE_def)
  qed
  then obtain t where t: "decomp_loop ?s cws = Inr t" by blast
  have "dest_room (decomp_init n c []) 1"
    using room unfolding dest_room_init by simp
  then have "lzw_decompress (n # c # cws) =
      Inr \<lparr>str = dest t, dlen = di t, dest_len = dstate.dest_len t\<rparr>"
    using c t by (simp add: lzw_decompress_def copy_entry_init)
  then show ?thesis using t by blast
qed

subsection \<open>Particular streams\<close>

lemma compress_from_empty: "compress_from t [] = Inr [0, trie_get t []]"
  by (simp add: compress_from_def)

lemma lzw_decompress_two:
  "lzw_decompress [0, x] =
     (if 1 \<le> unat x \<and> unat x \<le> 256
      then Inr \<lparr>str = [ucast x - 1], dlen = 1, dest_len = 1\<rparr>
      else Inl (DictUnassigned x))"
  by (simp add: lzw_decompress_def copy_entry_init dest_room_init) (simp add: decomp_init_def)

lemma decomp_init_step_67:
  "decomp_step (decomp_init 9 66 [65]) 67 =
     Inr (append_entry (decomp_init 9 66 [65]) 67 [66] 67 [65, 66])"
proof (rule decomp_step_known [where e = "[66]" and p = "[65]" and c = 66, simplified])
  let ?s0 = "decomp_init 9 66 [65]"
  show "(67::codeword) < dict_next ?s0" by (simp add: decomp_init_def)
  show "copy_entry ?s0 67 = Inr [66]" by (simp add: copy_entry_init)
  show "dest_room ?s0 (Suc 0)" by (simp add: dest_room_init)
  show "first_byte ?s0 67 = Inr 66"
    by (simp add: first_byte_def decomp_init_def seed_dict_apply)
  show "copy_entry ?s0 (cw_prev ?s0) = Inr [65]"
    by (simp add: copy_entry_init) (simp add: decomp_init_def)
  show "Suc 0 < BUF_SIZE" by (simp add: BUF_SIZE_def)
  show "dict_next ?s0 < grow ?s0" by (simp add: decomp_init_def grow_def)
qed

lemma after_67_sel:
  "dict_next (append_entry (decomp_init 9 66 [65]) 67 [66] 67 [65, 66]) = 258"
  "dict_size (append_entry (decomp_init 9 66 [65]) 67 [66] 67 [65, 66]) = 514"
  "cw_enc (append_entry (decomp_init 9 66 [65]) 67 [66] 67 [65, 66]) = 67"
  "cw_prev (append_entry (decomp_init 9 66 [65]) 67 [66] 67 [65, 66]) = 67"
  "dest (append_entry (decomp_init 9 66 [65]) 67 [66] 67 [65, 66]) = [65, 66]"
  "di (append_entry (decomp_init 9 66 [65]) 67 [66] 67 [65, 66]) = 2"
  "dstate.dest_len (append_entry (decomp_init 9 66 [65]) 67 [66] 67 [65, 66]) = 10"
  "dict (append_entry (decomp_init 9 66 [65]) 67 [66] 67 [65, 66]) = seed_dict(257 \<mapsto> [65, 66])"
  "copy_entry (append_entry (decomp_init 9 66 [65]) 67 [66] 67 [65, 66]) 67 = Inr [66]"
  "grow (append_entry (decomp_init 9 66 [65]) 67 [66] 67 [65, 66]) = 514"
proof -
  let ?s0 = "decomp_init 9 66 [65]"
  let ?s1 = "append_entry ?s0 67 [66] 67 [65, 66]"
  show a: "dict_next ?s1 = 258" "dict_size ?s1 = 514" "cw_enc ?s1 = 67" "cw_prev ?s1 = 67"
    "dest ?s1 = [65, 66]" "di ?s1 = 2" "dstate.dest_len ?s1 = 10"
    "dict ?s1 = seed_dict(257 \<mapsto> [65, 66])"
    by (simp_all add: append_entry_sel decomp_init_def grow_def)
  show "copy_entry ?s1 67 = Inr [66]"
    by (rule copy_entry_written)
      (simp_all add: append_entry_sel cleared_lens_below decomp_init_def
        seed_dict_apply seed_lens_apply)
  show "grow ?s1 = 514" by (simp add: grow_def a)
qed

lemma after_67_step_unknown:
  assumes "\<not> cw < 258"
  shows "decomp_step (append_entry (decomp_init 9 66 [65]) 67 [66] 67 [65, 66]) cw =
     Inr (append_entry (append_entry (decomp_init 9 66 [65]) 67 [66] 67 [65, 66])
            cw [66, 66] 258 [66, 66])"
proof -
  let ?s1 = "append_entry (decomp_init 9 66 [65]) 67 [66] 67 [65, 66]"
  have "decomp_step ?s1 cw = Inr (append_entry ?s1 cw [66, 66] (dict_next ?s1) [66, 66])"
  proof (rule decomp_step_unknown [where b = 66 and r = "[]", simplified])
    show "\<not> cw < dict_next ?s1" using assms by (simp add: after_67_sel)
    show "copy_entry ?s1 (cw_enc ?s1) = Inr [66]" by (simp add: after_67_sel)
    show "Suc 0 < BUF_SIZE" by (simp add: BUF_SIZE_def)
    show "dest_room ?s1 (Suc (Suc 0))" by (simp add: dest_room_def after_67_sel)
    show "dict_next ?s1 < grow ?s1" by (simp add: after_67_sel)
  qed
  then show ?thesis by (simp add: after_67_sel)
qed

lemma roundtrip_single:
  assumes "x \<noteq> 0"
  shows "roundtrip [x] = Inr \<lparr>str = [x - 1], dlen = 1, dest_len = 2\<rparr>"
proof -
  have u: "1 \<le> unat (ucast x :: codeword) \<and> unat (ucast x :: codeword) \<le> 256"
    using assms unat_byte_less [of x] by (simp add: unat_ucast_byte unat_gt_0 Suc_le_eq)
  have "ucast (ucast x :: codeword) = x"
    by (simp add: ucast_up_ucast_id is_up)
  then show ?thesis
    using u
    by (simp add: roundtrip_def compress_single_nonzero [OF assms] lzw_decompress_def
        copy_entry_init dest_room_init) (simp add: decomp_init_def)
qed

lemma lzw_decompress_unseeded:
  assumes "c = 0 \<or> 257 \<le> c"
  shows "lzw_decompress (n # c # cws) = Inl (DictUnassigned c)"
proof -
  have "\<not> (1 \<le> unat c \<and> unat c \<le> 256)"
    using assms by (auto simp: word_le_nat_alt)
  then have "copy_entry (decomp_init n c []) c = Inl (DictUnassigned c)"
    unfolding copy_entry_init by (rule if_not_P)
  then show ?thesis by (simp add: lzw_decompress_def)
qed

lemma lzw_decompress_three:
  assumes c: "1 \<le> c \<and> c \<le> 256" and cw: "257 \<le> cw"
  shows "lzw_decompress [n, c, cw] =
     (if 3 \<le> unat (n + 1)
      then Inr \<lparr>str = [ucast c - 1, ucast c - 1, ucast c - 1], dlen = 3, dest_len = n + 1\<rparr>
      else Inl DestOverflow)"
proof -
  define b :: byte where "b = ucast c - 1"
  define s where "s = decomp_init n c [b]"
  have u: "1 \<le> unat c \<and> unat c \<le> 256" using c by (simp add: word_range_nat)
  have ce: "copy_entry (decomp_init n c []) c = Inr [b]"
    using u by (simp add: copy_entry_init b_def)
  have sel: "dict_next s = 257" "cw_enc s = c" "dest s = [b]" "di s = 1"
    "dstate.dest_len s = n + 1" "dict_size s = 257"
    by (simp_all add: s_def decomp_init_def)
  have unk: "\<not> cw < dict_next s" using cw by (simp add: sel not_less)
  have q0: "copy_entry s c = Inr [b]"
    unfolding s_def using u by (simp add: copy_entry_init b_def)
  have q: "copy_entry s (cw_enc s) = Inr [b]"
    unfolding sel(2) by (rule q0)
  have g: "dict_next s < grow s" by (simp add: sel grow_def)
  have room: "dest_room s (Suc (Suc 0)) = (3 \<le> unat (n + 1))"
    by (simp add: dest_room_def sel eval_nat_numeral)
  have room1: "dest_room (decomp_init n c []) (Suc 0) = (1 \<le> unat (n + 1))"
    unfolding dest_room_init by simp
  have step: "decomp_step s cw =
     (if 3 \<le> unat (n + 1) then Inr (append_entry s cw [b, b] 257 [b, b]) else Inl DestOverflow)"
    unfolding decomp_step_unknown_cases [OF unk q]
    using g room by (simp add: BUF_SIZE_def sel)
  have run: "lzw_decompress [n, c, cw] =
     (if \<not> 1 \<le> unat (n + 1) then Inl DestOverflow
      else case decomp_step s cw of Inl f \<Rightarrow> Inl f
        | Inr t \<Rightarrow> Inr \<lparr>str = dest t, dlen = di t, dest_len = dstate.dest_len t\<rparr>)"
    unfolding s_def
    by (simp add: lzw_decompress_def ce room1 split: sum.splits)
  show ?thesis
    unfolding run step by (simp add: append_entry_sel sel) (simp add: b_def)
qed

lemma decomp_init_step_257:
  "decomp_step (decomp_init 9 66 [65]) 257 =
     Inr (append_entry (decomp_init 9 66 [65]) 257 [65, 65] 257 [65, 65])"
proof -
  let ?s0 = "decomp_init 9 66 [65]"
  have "decomp_step ?s0 257 = Inr (append_entry ?s0 257 [65, 65] (dict_next ?s0) [65, 65])"
  proof (rule decomp_step_unknown [where b = 65 and r = "[]", simplified])
    show "\<not> (257::codeword) < dict_next ?s0" by (simp add: decomp_init_def)
    show "copy_entry ?s0 (cw_enc ?s0) = Inr [65]"
      by (simp add: copy_entry_init) (simp add: decomp_init_def)
    show "Suc 0 < BUF_SIZE" by (simp add: BUF_SIZE_def)
    show "dest_room ?s0 (Suc (Suc 0))" by (simp add: dest_room_init)
    show "dict_next ?s0 < grow ?s0" by (simp add: decomp_init_def grow_def)
  qed
  then show ?thesis by (simp add: decomp_init_def)
qed

lemma lzw_decompress_fault_resize:
  assumes "lzw_decompress (n # rest) = Inl f" "f \<noteq> DestOverflow"
  shows "lzw_decompress (m # rest) = Inl f \<or> lzw_decompress (m # rest) = Inl DestOverflow"
  using lzw_decompress_dest_len [of n rest m] assms by auto

subsection \<open>A chain of self-referential codewords\<close>

text \<open>
  The stream 257, 258, 259, ... after a first codeword for the byte \<open>b\<close>: each codeword
  is the counter itself, the \<open>k\<close>-th iteration appends \<open>k + 1\<close> copies of \<open>b\<close> to the
  dictionary, and the string of \<^verbatim>\<open>cw_enc\<close> grows by one byte per iteration.
\<close>

lemma chain_step:
  assumes nx: "unat (dict_next s) = 257 + k"
    and enc: "copy_entry s (cw_enc s) = Inr (replicate (Suc k) b)"
    and di: "di s = of_nat (length (dest s))"
    and len: "2 * length (dest s) = 2 + k * (k + 3)"
    and cap: "unat (dict_next s) \<le> unat (dict_size s)"
      "unat (dict_size s) \<le> 2 * unat (dict_next s)"
    and k: "Suc k < BUF_SIZE"
    and room: "length (dest s) + k + 2 \<le> unat (dstate.dest_len s)"
  obtains s' where "decomp_step s (of_nat (257 + k)) = Inr s'"
    "unat (dict_next s') = 257 + Suc k"
    "copy_entry s' (cw_enc s') = Inr (replicate (Suc (Suc k)) b)"
    "di s' = of_nat (length (dest s'))"
    "2 * length (dest s') = 2 + Suc k * (Suc k + 3)"
    "unat (dict_next s') \<le> unat (dict_size s')"
    "unat (dict_size s') \<le> 2 * unat (dict_next s')"
    "dstate.dest_len s' = dstate.dest_len s"
proof -
  let ?w = "b # replicate k b @ [b]"
  let ?s' = "append_entry s (of_nat (257 + k)) ?w (dict_next s) ?w"
  have small: "257 + k < 2 ^ 30" using k by (simp add: BUF_SIZE_def)
  have "257 + k < 2 ^ 32" using small by simp
  then have "(dict_next s = of_nat (257 + k)) = (unat (dict_next s) = 257 + k)"
    by (rule word32_eq_of_nat)
  then have "dict_next s = of_nat (257 + k)" using nx by blast
  then have cw: "(of_nat (257 + k) :: codeword) = dict_next s" by (rule sym)
  have pos: "0 < unat (dict_next s)" and lt: "unat (dict_next s) < 2 ^ 30"
    using nx small by simp_all
  note g = grow_room [OF cap pos lt]
  have dlen: "unat (di s) = length (dest s)"
  proof -
    have "unat (dstate.dest_len s) < 2 ^ 32"
      using unsigned_less [of "dstate.dest_len s"] by simp
    then have "length (dest s) < 2 ^ 32" using room by simp
    then show ?thesis using di by (simp add: unat_of_nat)
  qed
  have w: "?w = replicate (Suc (Suc k)) b"
    by (simp add: replicate_append_same)
  have step: "decomp_step s (of_nat (257 + k)) = Inr ?s'"
  proof (rule decomp_step_unknown)
    show "\<not> (of_nat (257 + k) :: codeword) < dict_next s" unfolding cw by simp
    show "copy_entry s (cw_enc s) = Inr (b # replicate k b)" using enc by simp
    show "length (b # replicate k b) < BUF_SIZE" using k by simp
    show "dest_room s (length (b # replicate k b) + 1)"
      using room dlen by (simp add: dest_room_def)
    show "dict_next s < grow s" by (rule g(1))
  qed
  have nx': "unat (dict_next ?s') = Suc (unat (dict_next s))"
    by (rule decomp_step_next [OF step])
  show ?thesis
  proof (rule that [OF step])
    show "unat (dict_next ?s') = 257 + Suc k" using nx' nx by simp
    have "copy_entry ?s' (dict_next s) = Inr ?w"
      by (rule copy_entry_written) (simp_all add: append_entry_sel)
    then show "copy_entry ?s' (cw_enc ?s') = Inr (replicate (Suc (Suc k)) b)"
      unfolding w by (simp add: append_entry_sel)
    show "di ?s' = of_nat (length (dest ?s'))" using di by (simp add: append_entry_sel)
    show "2 * length (dest ?s') = 2 + Suc k * (Suc k + 3)"
      using len by (simp add: append_entry_sel algebra_simps)
    show "unat (dict_next ?s') \<le> unat (dict_size ?s')"
      using g(2) nx' by (simp add: append_entry_sel)
    show "unat (dict_size ?s') \<le> 2 * unat (dict_next ?s')"
      using g(3) nx' by (simp add: append_entry_sel)
    show "dstate.dest_len ?s' = dstate.dest_len s" by (simp add: append_entry_sel)
  qed
qed

lemma chain_loop:
  assumes "unat (dict_next s) = 257 + k"
    and "copy_entry s (cw_enc s) = Inr (replicate (Suc k) b)"
    and "di s = of_nat (length (dest s))"
    and "2 * length (dest s) = 2 + k * (k + 3)"
    and "unat (dict_next s) \<le> unat (dict_size s)"
      "unat (dict_size s) \<le> 2 * unat (dict_next s)"
    and "k + j < BUF_SIZE"
    and "2 + (k + j) * (k + j + 3) \<le> 2 * unat (dstate.dest_len s)"
  shows "\<exists>t. decomp_loop s (map of_nat [257 + k..<257 + k + j]) = Inr t \<and>
             unat (dict_next t) = 257 + k + j \<and>
             copy_entry t (cw_enc t) = Inr (replicate (Suc (k + j)) b)"
  using assms
proof (induction j arbitrary: k s)
  case 0
  then show ?case by simp
next
  case (Suc j)
  have k: "Suc k < BUF_SIZE" using Suc.prems(7) by simp
  have "Suc k * (Suc k + 3) \<le> (k + Suc j) * (k + Suc j + 3)"
    by (rule mult_le_mono) simp_all
  then have "2 + Suc k * (Suc k + 3) \<le> 2 * unat (dstate.dest_len s)"
    using Suc.prems(8) by linarith
  moreover have "2 * (length (dest s) + k + 2) = 2 + Suc k * (Suc k + 3)"
    using Suc.prems(4) by (simp add: algebra_simps)
  ultimately have "2 * (length (dest s) + k + 2) \<le> 2 * unat (dstate.dest_len s)"
    by (simp only:)
  then have room: "length (dest s) + k + 2 \<le> unat (dstate.dest_len s)"
    by simp
  from chain_step [OF Suc.prems(1,2,3,4,5,6) k room]
  obtain s' where s': "decomp_step s (of_nat (257 + k)) = Inr s'"
    and q: "unat (dict_next s') = 257 + Suc k"
    "copy_entry s' (cw_enc s') = Inr (replicate (Suc (Suc k)) b)"
    "di s' = of_nat (length (dest s'))"
    "2 * length (dest s') = 2 + Suc k * (Suc k + 3)"
    "unat (dict_next s') \<le> unat (dict_size s')"
    "unat (dict_size s') \<le> 2 * unat (dict_next s')"
    and dl: "dstate.dest_len s' = dstate.dest_len s"
    by blast
  have "\<exists>t. decomp_loop s' (map of_nat [257 + Suc k..<257 + Suc k + j]) = Inr t \<and>
             unat (dict_next t) = 257 + Suc k + j \<and>
             copy_entry t (cw_enc t) = Inr (replicate (Suc (Suc k + j)) b)"
  proof (rule Suc.IH [OF q])
    show "Suc k + j < BUF_SIZE" using Suc.prems(7) by simp
    show "2 + (Suc k + j) * (Suc k + j + 3) \<le> 2 * unat (dstate.dest_len s')"
      using Suc.prems(8) by (simp add: dl)
  qed
  then obtain t where t: "decomp_loop s' (map of_nat [257 + Suc k..<257 + Suc k + j]) = Inr t"
    and tn: "unat (dict_next t) = 257 + Suc k + j"
    and te: "copy_entry t (cw_enc t) = Inr (replicate (Suc (Suc k + j)) b)"
    by blast
  have "[257 + k..<257 + k + Suc j] = (257 + k) # [257 + Suc k..<257 + Suc k + j]"
    by (simp add: upt_conv_Cons ac_simps)
  then have "decomp_loop s (map of_nat [257 + k..<257 + k + Suc j]) =
      decomp_loop s (of_nat (257 + k) # map of_nat [257 + Suc k..<257 + Suc k + j])"
    by (simp only: list.map)
  also have "\<dots> = Inr t"
    unfolding decomp_loop.simps s' sum.case by (rule t)
  finally have "decomp_loop s (map of_nat [257 + k..<257 + k + Suc j]) = Inr t" .
  moreover have "unat (dict_next t) = 257 + k + Suc j" using tn by simp
  moreover have "copy_entry t (cw_enc t) = Inr (replicate (Suc (k + Suc j)) b)"
    using te by simp
  ultimately show ?case by blast
qed

lemma chain_overflow:
  assumes c: "1 \<le> c \<and> c \<le> 256" and n: "536887296 \<le> unat (n + 1)"
  shows "lzw_decompress (n # c # map of_nat [257..<33025]) = Inl SubstrOverflow"
proof -
  define b :: byte where "b = ucast c - 1"
  define s where "s = decomp_init n c [b]"
  have u: "1 \<le> unat c \<and> unat c \<le> 256" using c by (simp add: word_range_nat)
  have ce: "copy_entry (decomp_init n c []) c = Inr [b]"
    using u by (simp add: copy_entry_init b_def)
  have sel: "dict_next s = 257" "cw_enc s = c" "dest s = [b]" "di s = 1"
    "dstate.dest_len s = n + 1" "dict_size s = 257"
    by (simp_all add: s_def decomp_init_def)
  have q0: "copy_entry s c = Inr [b]"
    unfolding s_def using u by (simp add: copy_entry_init b_def)
  have "\<exists>t. decomp_loop s (map of_nat [257 + 0..<257 + 0 + 32767]) = Inr t \<and>
             unat (dict_next t) = 257 + 0 + 32767 \<and>
             copy_entry t (cw_enc t) = Inr (replicate (Suc (0 + 32767)) b)"
  proof (rule chain_loop)
    show "unat (dict_next s) = 257 + 0" by (simp add: sel)
    show "copy_entry s (cw_enc s) = Inr (replicate (Suc 0) b)" by (simp add: sel q0)
    show "di s = of_nat (length (dest s))" by (simp add: sel)
    show "2 * length (dest s) = 2 + 0 * (0 + 3)" by (simp add: sel)
    show "unat (dict_next s) \<le> unat (dict_size s)" by (simp add: sel)
    show "unat (dict_size s) \<le> 2 * unat (dict_next s)" by (simp add: sel)
    show "0 + 32767 < BUF_SIZE" by (simp add: BUF_SIZE_def)
    show "2 + (0 + 32767) * (0 + 32767 + 3) \<le> 2 * unat (dstate.dest_len s)"
      using n by (simp add: sel)
  qed
  then obtain t where t: "decomp_loop s (map of_nat [257..<33024]) = Inr t"
    and nx: "unat (dict_next t) = 33024"
    and enc: "copy_entry t (cw_enc t) = Inr (replicate 32768 b)"
    by (auto simp del: upt_rec_numeral replicate_Suc replicate.simps)
  have unk: "\<not> (33024 :: codeword) < dict_next t"
    using nx by (simp add: word_less_nat_alt)
  have "(32768::nat) = Suc 32767" by simp
  then have r: "replicate 32768 b = b # replicate 32767 b"
    by (simp only: replicate_Suc)
  have last: "decomp_step t 33024 = Inl SubstrOverflow"
    using decomp_step_unknown_cases [OF unk enc [unfolded r]]
    by (simp add: BUF_SIZE_def)
  have split: "map of_nat [257..<33025] = map of_nat [257..<33024] @ [33024 :: codeword]"
  proof -
    have "[257..<33025] = [257..<Suc 33024]" by (simp del: upt_rec_numeral upt_Suc)
    also have "\<dots> = [257..<33024] @ [33024]" by (rule upt_Suc_append) simp
    finally show ?thesis by (simp del: upt_rec_numeral)
  qed
  have "decomp_loop s (map of_nat [257..<33025]) = Inl SubstrOverflow"
    unfolding split decomp_loop_append by (simp add: t last del: upt_rec_numeral)
  moreover have "dest_room (decomp_init n c []) (Suc 0)"
    unfolding dest_room_init using n by simp
  ultimately show ?thesis
    using ce by (simp add: lzw_decompress_def s_def del: upt_rec_numeral)
qed

section \<open>The claims\<close>

subsection \<open>C1: the round trip\<close>

text \<open>
  C1 says that decompressing the stream produced by compressing a buffer gives the buffer
  back, the empty buffer included. On the empty buffer the compressor's loop does not run
  and the statement after it still looks up the candidate, now the empty string, and
  stores the answer, "not found", as a content codeword: the stream is \<open>[0, 0]\<close>.
  The decompressor then reads \<^verbatim>\<open>dict[0]\<close> and \<^verbatim>\<open>dict_lens[0]\<close>, which its seeding loop,
  starting at index 1, never wrote. Whatever the trie answers for the empty string, the
  stream has two elements, and a stream \<open>[0, x]\<close> decodes to one byte or reads a slot
  never written (\<open>compress_from_empty\<close>, \<open>lzw_decompress_two\<close>).
\<close>

theorem C1_empty_buffer_roundtrip:
  "roundtrip [] = Inl (DictUnassigned 0)"
  by (simp add: roundtrip_def compress_empty lzw_decompress_def copy_entry_init)

subsection \<open>C2: codewords beyond the counter\<close>

text \<open>
  C2, as the code has it. The decompressor has no result for a corrupt stream and tests
  a codeword only with \<^verbatim>\<open>cw < dict_next\<close>. A content codeword that is not below the
  counter, equal to it or greater, takes the second branch: the iteration is the one for
  the counter itself, and only \<^verbatim>\<open>cw_prev\<close> keeps the value read. So a stream
  \<open>[n, c, cw]\<close> with a seeded \<open>c\<close>, any \<open>cw\<close> from 257 on and room for three bytes decodes
  to three copies of the byte of \<open>c\<close>. The second element of a stream is not tested at
  all: it indexes \<^verbatim>\<open>dict\<close> and \<^verbatim>\<open>dict_lens\<close>, and when it is 0 or at least 257 the slot
  it reads was never written (from 257 on it lies outside the 257 slots allocated).
\<close>

theorem C2_no_corruption_check:
  "(\<not> cw < dict_next s \<longrightarrow>
      decomp_step s cw = map_sum id (\<lambda>t. t\<lparr>cw_prev := cw\<rparr>) (decomp_step s (dict_next s))) \<and>
   (1 \<le> c \<and> c \<le> 256 \<and> 257 \<le> cw \<and> 3 \<le> unat (n + 1) \<longrightarrow>
      lzw_decompress [n, c, cw] =
        Inr \<lparr>str = [ucast c - 1, ucast c - 1, ucast c - 1], dlen = 3, dest_len = n + 1\<rparr>) \<and>
   (c = 0 \<or> 257 \<le> c \<longrightarrow> lzw_decompress (n # c # cws) = Inl (DictUnassigned c))"
proof (intro conjI impI)
  assume "\<not> cw < dict_next s"
  then show "decomp_step s cw =
      map_sum id (\<lambda>t. t\<lparr>cw_prev := cw\<rparr>) (decomp_step s (dict_next s))"
    by (rule decomp_step_unknown_any)
next
  assume "1 \<le> c \<and> c \<le> 256 \<and> 257 \<le> cw \<and> 3 \<le> unat (n + 1)"
  then show "lzw_decompress [n, c, cw] =
      Inr \<lparr>str = [ucast c - 1, ucast c - 1, ucast c - 1], dlen = 3, dest_len = n + 1\<rparr>"
    using lzw_decompress_three [of c cw n] by simp
next
  assume "c = 0 \<or> 257 \<le> c"
  then show "lzw_decompress (n # c # cws) = Inl (DictUnassigned c)"
    by (rule lzw_decompress_unseeded)
qed

theorem C2_witness:
  "\<not> (1000::codeword) < dict_next (decomp_init 3 66 [65]) \<and>
   decomp_step (decomp_init 3 66 [65]) 1000 =
     map_sum id (\<lambda>t. t\<lparr>cw_prev := 1000\<rparr>) (decomp_step (decomp_init 3 66 [65]) 257) \<and>
   (1::codeword) \<le> 66 \<and> (66::codeword) \<le> 256 \<and> (257::codeword) \<le> 1000 \<and>
   3 \<le> unat (3 + 1 :: codeword) \<and>
   lzw_decompress [3, 66, 1000] = Inr \<lparr>str = [65, 65, 65], dlen = 3, dest_len = 4\<rparr> \<and>
   ((257::codeword) = 0 \<or> (257::codeword) \<le> 257) \<and>
   lzw_decompress [3, 257, 66] = Inl (DictUnassigned 257)"
proof -
  have a: "\<not> (1000::codeword) < dict_next (decomp_init 3 66 [65])"
    by (simp add: decomp_init_def)
  have n: "dict_next (decomp_init 3 66 [65]) = 257" by (simp add: decomp_init_def)
  show ?thesis
    using C2_no_corruption_check [of 1000 "decomp_init 3 66 [65]" 66 3 "[66]"]
      C2_no_corruption_check [of 1000 "decomp_init 3 66 [65]" 257 3 "[66]"] a n
    by simp
qed

text \<open>
  The claim as stated fails: a third element far above the counter, and one above the
  counter later in the stream, are decoded without complaint; a second element of 257
  makes the function read a slot outside its arrays.
\<close>

theorem C2_counterexample:
  "lzw_decompress [3, 66, 1000] = Inr \<lparr>str = [65, 65, 65], dlen = 3, dest_len = 4\<rparr> \<and>
   lzw_decompress [9, 66, 67, 1000] = Inr \<lparr>str = [65, 66, 66, 66], dlen = 4, dest_len = 10\<rparr> \<and>
   lzw_decompress [1, 257] = Inl (DictUnassigned 257)"
proof (intro conjI)
  show "lzw_decompress [3, 66, 1000] = Inr \<lparr>str = [65, 65, 65], dlen = 3, dest_len = 4\<rparr>"
    using lzw_decompress_three [of 66 1000 3] by simp
  show "lzw_decompress [1, 257] = Inl (DictUnassigned 257)"
    using lzw_decompress_unseeded [of 257 1 "[]"] by simp
  show "lzw_decompress [9, 66, 67, 1000] = Inr \<lparr>str = [65, 66, 66, 66], dlen = 4, dest_len = 10\<rparr>"
  proof -
    let ?s1 = "append_entry (decomp_init 9 66 [65]) 67 [66] 67 [65, 66]"
    let ?s2 = "append_entry ?s1 1000 [66, 66] 258 [66, 66]"
    have "decomp_step ?s1 1000 = Inr ?s2" by (rule after_67_step_unknown) simp
    then have "decomp_loop (decomp_init 9 66 [65]) [67, 1000] = Inr ?s2"
      by (simp add: decomp_init_step_67)
    moreover have "dest ?s2 = [65, 66, 66, 66]" "di ?s2 = 4" "dstate.dest_len ?s2 = 10"
      unfolding append_entry_sel(7,8,9) [of ?s1] after_67_sel by simp_all
    ultimately show ?thesis
      by (simp add: lzw_decompress_def copy_entry_init dest_room_init)
  qed
qed

subsection \<open>C3: the layout of the decompressor's dictionary\<close>

text \<open>
  C3, as the code has it: index 0 of the decompressor's dictionary is never written, by
  the seeding loop or by the main loop; each index \<open>k\<close> from 1 to 256 holds the one-byte
  string with the byte \<open>k - 1\<close>, before and after any run; the counter starts at 257, and
  after a run over \<open>cws\<close> the written indices are exactly 1, ..., 256 and the
  \<open>length cws\<close> next ones.
\<close>

theorem C3_seeded_from_one:
  "seed_dict 0 = None \<and>
   (1 \<le> k \<and> k \<le> 256 \<longrightarrow> seed_dict k = Some [ucast k - 1]) \<and>
   dict_next (decomp_init n c e0) = 257 \<and>
   (decomp_loop (decomp_init n c e0) cws = Inr t \<longrightarrow>
      dict t 0 = None \<and>
      (1 \<le> k \<and> k \<le> 256 \<longrightarrow> dict t k = Some [ucast k - 1]) \<and>
      dom (dict t) = {j. 1 \<le> unat j \<and> unat j < 257 + length cws})"
proof (intro conjI impI)
  show "seed_dict 0 = None" by (simp add: seed_dict_apply)
  show "seed_dict k = Some [ucast k - 1]" if "1 \<le> k \<and> k \<le> 256"
    using that unfolding word_range_nat by (simp add: seed_dict_apply)
  show "dict_next (decomp_init n c e0) = 257" by (simp add: decomp_init_def)
next
  assume run: "decomp_loop (decomp_init n c e0) cws = Inr t"
  show d: "dom (dict t) = {j. 1 \<le> unat j \<and> unat j < 257 + length cws}"
    by (rule decomp_init_run_dom [OF run])
  have "(0::32 word) \<notin> dom (dict t)" unfolding d by simp
  then show "dict t 0 = None" by blast
  show "dict t k = Some [ucast k - 1]" if "1 \<le> k \<and> k \<le> 256"
    using that decomp_init_run_seed [OF run, of k] unfolding word_range_nat by simp
qed

theorem C3_witness:
  "(1::32 word) \<le> 66 \<and> (66::32 word) \<le> 256 \<and> seed_dict 66 = Some [65] \<and>
   decomp_loop (decomp_init 9 66 [65]) [257] =
     Inr (append_entry (decomp_init 9 66 [65]) 257 [65, 65] 257 [65, 65]) \<and>
   dict (append_entry (decomp_init 9 66 [65]) 257 [65, 65] 257 [65, 65]) =
     seed_dict(257 \<mapsto> [65, 65]) \<and>
   (seed_dict(257 \<mapsto> [65, 65])) 0 = None \<and>
   (seed_dict(257 \<mapsto> [65, 65])) 66 = Some [65] \<and>
   dom (seed_dict(257 \<mapsto> [65, 65])) = {j::32 word. 1 \<le> unat j \<and> unat j < 258}"
proof -
  let ?t = "append_entry (decomp_init 9 66 [65]) 257 [65, 65] 257 [65, 65]"
  have run: "decomp_loop (decomp_init 9 66 [65]) [257] = Inr ?t"
    by (simp add: decomp_init_step_257)
  have d: "dict ?t = seed_dict(257 \<mapsto> [65, 65])"
    by (simp add: append_entry_sel decomp_init_def)
  have k: "(1::32 word) \<le> 66 \<and> (66::32 word) \<le> 256" by simp
  show ?thesis
    using C3_seeded_from_one [of 66 9 66 "[65]" "[257]" ?t] run k
    unfolding d by simp
qed

text \<open>
  The claim as stated puts byte \<open>c\<close> at codeword \<open>c\<close> and leaves 256 unused. In the code
  codeword 65 is the byte 64, codeword 256 is the byte 255, and codeword 0 has no entry.
\<close>

theorem C3_counterexample:
  "seed_dict 65 = Some [64] \<and> seed_dict 65 \<noteq> Some [65] \<and>
   seed_dict 256 = Some [255] \<and> seed_dict 0 = None \<and>
   lzw_decompress [1, 65] = Inr \<lparr>str = [64], dlen = 1, dest_len = 2\<rparr> \<and>
   lzw_decompress [1, 256] = Inr \<lparr>str = [255], dlen = 1, dest_len = 2\<rparr> \<and>
   lzw_decompress [1, 0] = Inl (DictUnassigned 0)"
  by (simp add: lzw_decompress_def seed_dict_apply copy_entry_init dest_room_init)
    (simp add: decomp_init_def)

subsection \<open>C4: the length codeword\<close>

text \<open>
  C4: the first element of the stream \<^verbatim>\<open>lzw_compress\<close> returns for a buffer of
  \<open>N\<close> bytes is \<open>N\<close> (the compressor returns a stream at least for every buffer that
  fits its working array; \<open>N\<close> is an \<^verbatim>\<open>unsigned int\<close>). \<^verbatim>\<open>lzw_decompress\<close> does not
  decode that element: it only sets the size of the output allocation, \<open>n + 1\<close>. A run
  that completes with the first element \<open>n\<close> gives, with any other first element \<open>m\<close>,
  the same bytes and the same count in an allocation of \<open>m + 1\<close> bytes when they fit
  there, and a copy past the end of the allocation when they do not. A run that stops at
  another fault stops at the same fault, unless a copy runs past the allocation first.
\<close>

theorem C4_length_codeword:
  "(length B \<le> BUF_SIZE \<longrightarrow> (\<exists>cs. lzw_compress B = Inr cs)) \<and>
   (lzw_compress B = Inr cs \<and> length B < 2 ^ 32 \<longrightarrow> cs \<noteq> [] \<and> unat (hd cs) = length B) \<and>
   (lzw_decompress (n # rest) = Inr r \<longrightarrow>
      dest_len r = n + 1 \<and> dlen r = of_nat (length (str r)) \<and>
      length (str r) \<le> unat (n + 1) \<and>
      (\<forall>m. lzw_decompress (m # rest) =
             (if length (str r) \<le> unat (m + 1) then Inr (r\<lparr>dest_len := m + 1\<rparr>)
              else Inl DestOverflow))) \<and>
   (lzw_decompress (n # rest) = Inl f \<and> f \<noteq> DestOverflow \<longrightarrow>
      (\<forall>m. lzw_decompress (m # rest) = Inl f \<or> lzw_decompress (m # rest) = Inl DestOverflow))"
proof (intro conjI impI allI)
  assume "length B \<le> BUF_SIZE"
  then show "\<exists>cs. lzw_compress B = Inr cs" by (rule lzw_compress_total)
next
  assume a: "lzw_compress B = Inr cs \<and> length B < 2 ^ 32"
  then obtain tl where cs: "cs = of_nat (length B) # tl"
    using lzw_compress_hd by blast
  show "cs \<noteq> []" using cs by simp
  show "unat (hd cs) = length B" using a cs by (simp add: unat_of_nat)
next
  assume r: "lzw_decompress (n # rest) = Inr r"
  show "dest_len r = n + 1" using lzw_decompress_fits(3) [OF r] by simp
  then show "length (str r) \<le> unat (n + 1)" using lzw_decompress_fits(2) [OF r] by simp
  show "dlen r = of_nat (length (str r))" by (rule lzw_decompress_fits(1) [OF r])
  show "lzw_decompress (m # rest) =
      (if length (str r) \<le> unat (m + 1) then Inr (r\<lparr>dest_len := m + 1\<rparr>)
       else Inl DestOverflow)" for m
    by (rule lzw_decompress_resize [OF r])
next
  assume "lzw_decompress (n # rest) = Inl f \<and> f \<noteq> DestOverflow"
  then show "lzw_decompress (m # rest) = Inl f \<or> lzw_decompress (m # rest) = Inl DestOverflow" for m
    using lzw_decompress_fault_resize [of n rest f m] by simp
qed

theorem C4_witness:
  "length [65::byte] \<le> BUF_SIZE \<and> lzw_compress [65] = Inr [1, 65] \<and>
   length [65::byte] < 2 ^ 32 \<and> unat (hd [1, 65 :: codeword]) = length [65::byte] \<and>
   lzw_decompress [1, 65] = Inr \<lparr>str = [64], dlen = 1, dest_len = 2\<rparr> \<and>
   lzw_decompress [7, 65] = Inr \<lparr>str = [64], dlen = 1, dest_len = 8\<rparr> \<and>
   lzw_decompress [4294967295, 65] = Inl DestOverflow \<and>
   lzw_decompress [1, 0] = Inl (DictUnassigned 0) \<and> DictUnassigned 0 \<noteq> DestOverflow \<and>
   (lzw_decompress [7, 0] = Inl (DictUnassigned 0) \<or> lzw_decompress [7, 0] = Inl DestOverflow)"
proof -
  have a: "length [65::byte] \<le> BUF_SIZE" by (simp add: BUF_SIZE_def)
  have b: "lzw_compress [65] = Inr [1, 65]"
    using compress_single_nonzero [of 65] by simp
  have c: "length [65::byte] < 2 ^ 32" by simp
  have d: "lzw_decompress (1 # [65]) = Inr \<lparr>str = [64], dlen = 1, dest_len = 2\<rparr>"
    by (simp add: lzw_decompress_def copy_entry_init dest_room_init) (simp add: decomp_init_def)
  have e: "lzw_decompress (1 # [0]) = Inl (DictUnassigned 0) \<and> DictUnassigned 0 \<noteq> DestOverflow"
    by (simp add: lzw_decompress_def copy_entry_init)
  have f: "unat (4294967295 + 1 :: codeword) = 0" by simp
  show ?thesis
    using C4_length_codeword [of "[65]" "[1, 65]" 1 "[65]" "\<lparr>str = [64], dlen = 1, dest_len = 2\<rparr>"
        "DictUnassigned 0"]
      C4_length_codeword [of "[65]" "[1, 65]" 1 "[0]" "\<lparr>str = [64], dlen = 1, dest_len = 2\<rparr>"
        "DictUnassigned 0"]
      a b c d e f
    by simp
qed

subsection \<open>C5: the self-referential codeword\<close>

text \<open>
  C5, as the code has it. When the codeword read is not below the counter, the string of
  \<^verbatim>\<open>cw_enc\<close>, the last string copied to the output, is \<open>b # r\<close>. If it is shorter than
  \<^verbatim>\<open>substr_ch\<close>, if \<open>length (b # r) + 1\<close> more bytes fit the output allocation and if
  the arrays can take one more entry, the iteration completes: it copies \<open>b # r @ [b]\<close>
  to the output, writes that string at \<^verbatim>\<open>dict_next\<close>, sets \<^verbatim>\<open>cw_enc\<close> to that index and
  moves the counter on; \<^verbatim>\<open>cw_prev\<close> takes the codeword read, which is that index only
  when the codeword was the counter itself. In every state a run reaches from a seeded
  first codeword the string of \<^verbatim>\<open>cw_enc\<close> is there and is not empty.
\<close>

theorem C5_unknown_codeword:
  "(\<not> cw < dict_next s \<and> copy_entry s (cw_enc s) = Inr (b # r) \<and>
    length (b # r) < BUF_SIZE \<and> dest_room s (length (b # r) + 1) \<and> dict_next s < grow s \<longrightarrow>
      (\<exists>s'. decomp_step s cw = Inr s' \<and>
            dest s' = dest s @ b # r @ [b] \<and> di s' = di s + of_nat (length (b # r) + 1) \<and>
            dict s' = (dict s)(dict_next s \<mapsto> b # r @ [b]) \<and>
            copy_entry s' (dict_next s) = Inr (b # r @ [b]) \<and>
            cw_enc s' = dict_next s \<and> cw_prev s' = cw \<and> dict_next s' = dict_next s + 1)) \<and>
   (1 \<le> c \<and> c \<le> 256 \<and> decomp_loop (decomp_init n c [ucast c - 1]) cws = Inr t \<longrightarrow>
      (\<exists>b r. copy_entry t (cw_enc t) = Inr (b # r)))"
proof (intro conjI impI)
  assume a: "\<not> cw < dict_next s \<and> copy_entry s (cw_enc s) = Inr (b # r) \<and>
    length (b # r) < BUF_SIZE \<and> dest_room s (length (b # r) + 1) \<and> dict_next s < grow s"
  let ?s' = "append_entry s cw (b # r @ [b]) (dict_next s) (b # r @ [b])"
  have step: "decomp_step s cw = Inr ?s'"
    using a by (intro decomp_step_unknown) simp_all
  have "copy_entry ?s' (dict_next s) = Inr (b # r @ [b])"
    by (rule copy_entry_written) (simp_all add: append_entry_sel)
  then show "\<exists>s'. decomp_step s cw = Inr s' \<and>
            dest s' = dest s @ b # r @ [b] \<and> di s' = di s + of_nat (length (b # r) + 1) \<and>
            dict s' = (dict s)(dict_next s \<mapsto> b # r @ [b]) \<and>
            copy_entry s' (dict_next s) = Inr (b # r @ [b]) \<and>
            cw_enc s' = dict_next s \<and> cw_prev s' = cw \<and> dict_next s' = dict_next s + 1"
    using step by (simp add: append_entry_sel)
next
  assume a: "1 \<le> c \<and> c \<le> 256 \<and> decomp_loop (decomp_init n c [ucast c - 1]) cws = Inr t"
  then have "1 \<le> unat c" "unat c \<le> 256" by (simp_all add: word_le_nat_alt)
  then have "wf_dict (decomp_init n c [ucast c - 1])" by (rule wf_dict_init)
  then have "wf_dict t" using a by (blast intro: wf_dict_loop)
  then show "\<exists>b r. copy_entry t (cw_enc t) = Inr (b # r)"
    by (blast elim: wf_dict_cw_enc)
qed

theorem C5_witness:
  "\<not> (300::codeword) < dict_next (append_entry (decomp_init 9 66 [65]) 67 [66] 67 [65, 66]) \<and>
   copy_entry (append_entry (decomp_init 9 66 [65]) 67 [66] 67 [65, 66])
     (cw_enc (append_entry (decomp_init 9 66 [65]) 67 [66] 67 [65, 66])) = Inr [66] \<and>
   length [66::byte] < BUF_SIZE \<and>
   dest_room (append_entry (decomp_init 9 66 [65]) 67 [66] 67 [65, 66]) (length [66::byte] + 1) \<and>
   dict_next (append_entry (decomp_init 9 66 [65]) 67 [66] 67 [65, 66]) <
     grow (append_entry (decomp_init 9 66 [65]) 67 [66] 67 [65, 66]) \<and>
   (\<exists>s'. decomp_step (append_entry (decomp_init 9 66 [65]) 67 [66] 67 [65, 66]) 300 = Inr s' \<and>
         dest s' = [65, 66, 66, 66] \<and> di s' = 4 \<and>
         dict s' = seed_dict(257 \<mapsto> [65, 66], 258 \<mapsto> [66, 66]) \<and>
         copy_entry s' 258 = Inr [66, 66] \<and>
         cw_enc s' = 258 \<and> cw_prev s' = 300 \<and> dict_next s' = 259) \<and>
   (1::codeword) \<le> 66 \<and> (66::codeword) \<le> 256 \<and>
   decomp_loop (decomp_init 9 66 [65]) [67] =
     Inr (append_entry (decomp_init 9 66 [65]) 67 [66] 67 [65, 66])"
proof -
  let ?s1 = "append_entry (decomp_init 9 66 [65]) 67 [66] 67 [65, 66]"
  have a: "\<not> (300::codeword) < dict_next ?s1" by (simp add: after_67_sel)
  have b: "copy_entry ?s1 (cw_enc ?s1) = Inr [66]" by (simp add: after_67_sel)
  have c: "length [66::byte] < BUF_SIZE" by (simp add: BUF_SIZE_def)
  have d: "dest_room ?s1 (length [66::byte] + 1)" by (simp add: dest_room_def after_67_sel)
  have e: "dict_next ?s1 < grow ?s1" by (simp add: after_67_sel)
  have f: "decomp_loop (decomp_init 9 66 [65]) [67] = Inr ?s1"
    by (simp add: decomp_init_step_67)
  have g: "(1::codeword) \<le> 66 \<and> (66::codeword) \<le> 256" by simp
  from C5_unknown_codeword [of 300 ?s1 66 "[]" 66 9 "[67]" ?s1] a b c d e
  obtain s' where "decomp_step ?s1 300 = Inr s'"
    "dest s' = dest ?s1 @ [66, 66]" "di s' = di ?s1 + of_nat (length [66::byte] + 1)"
    "dict s' = (dict ?s1)(dict_next ?s1 \<mapsto> [66, 66])"
    "copy_entry s' (dict_next ?s1) = Inr [66, 66]"
    "cw_enc s' = dict_next ?s1" "cw_prev s' = 300" "dict_next s' = dict_next ?s1 + 1"
    by auto
  then have "\<exists>s'. decomp_step ?s1 300 = Inr s' \<and>
         dest s' = [65, 66, 66, 66] \<and> di s' = 4 \<and>
         dict s' = seed_dict(257 \<mapsto> [65, 66], 258 \<mapsto> [66, 66]) \<and>
         copy_entry s' 258 = Inr [66, 66] \<and>
         cw_enc s' = 258 \<and> cw_prev s' = 300 \<and> dict_next s' = 259"
    by (simp add: after_67_sel)
  then show ?thesis using a b c d e f g by blast
qed

text \<open>
  The claim as stated, for every such codeword, fails in two ways. In the stream
  \<open>[0, 66, 257]\<close> the output allocation has one byte, the first codeword fills it, and
  the reconstructed string of two bytes is copied past its end. In the stream of 66
  followed by the codewords 257, 258, ..., 33024 each codeword is the counter itself,
  and the strings they stand for are 2, 3, ..., 32769 copies of one byte, 536920065
  bytes with the first; when the last codeword is read the string of \<^verbatim>\<open>cw_enc\<close> has
  \<^verbatim>\<open>BUF_SIZE\<close> bytes, and the byte appended to it is written past the end of
  \<^verbatim>\<open>substr_ch\<close>.
\<close>

theorem C5_counterexample:
  "lzw_decompress [0, 66, 257] = Inl DestOverflow \<and>
   lzw_decompress (536920065 # 66 # map of_nat [257..<33025]) = Inl SubstrOverflow"
proof
  show "lzw_decompress [0, 66, 257] = Inl DestOverflow"
    using lzw_decompress_three [of 66 257 0] by simp
  have "(1::codeword) \<le> 66 \<and> (66::codeword) \<le> 256" by simp
  moreover have "536887296 \<le> unat (536920065 + 1 :: codeword)" by simp
  ultimately show "lzw_decompress (536920065 # 66 # map of_nat [257..<33025]) =
      Inl SubstrOverflow"
    by (rule chain_overflow)
qed

subsection \<open>C6: a buffer of one byte\<close>

text \<open>
  C6 says that the one-byte buffer \<open>[x]\<close> compresses to \<open>[1, x]\<close>. With the trie numbered
  as the spec numbers it this holds for every byte but 0 (\<open>compress_single_nonzero\<close>).
  The codeword of the byte 0 is 0, the value \<^verbatim>\<open>trie_get\<close> returns for a string that is
  not there, and the test \<^verbatim>\<open>trie_get(dict, substr, substr_len) == 0\<close> takes the byte for
  a new string: the loop emits the codeword of the empty prefix, 0, and the statement
  after the loop emits the codeword of \<open>[0]\<close>, so the stream has three elements.
  Whatever the trie holds, no one-byte buffer gives \<open>[1, 0]\<close>.
\<close>

theorem C6_zero_byte_stream:
  "lzw_compress [0] = Inr [1, 0, 0] \<and> (\<forall>t. compress_from t [0] \<noteq> Inr [1, 0])"
  by (simp add: compress_single_zero compress_from_single)

subsection \<open>C7: the number of codewords\<close>

text \<open>
  C7 bounds the stream by \<open>N + 1\<close> codewords. For the empty buffer the function returns
  2: the length and the codeword it stores after the loop, whatever the trie holds
  (\<open>compress_from_empty\<close>).
\<close>

theorem C7_empty_buffer_two_codewords:
  "\<exists>cs. lzw_compress [] = Inr cs \<and> length cs = 2 \<and> \<not> length cs \<le> length ([]::byte list) + 1"
  by (simp add: compress_empty)

subsection \<open>C8: the empty buffer\<close>

text \<open>
  C8 says that the empty buffer compresses to the length codeword alone and that such a
  stream decompresses to the empty buffer. The compressor returns the two codewords
  \<open>[0, 0]\<close>; the decompressor, given the one-element stream \<open>[0]\<close>, reads \<^verbatim>\<open>src[1]\<close>,
  past its end.
\<close>

theorem C8_empty_buffer_stream:
  "lzw_compress [] = Inr [0, 0] \<and> lzw_decompress [0] = Inl (SrcOutOfBounds 1)"
  by (simp add: compress_empty lzw_decompress_def)

subsection \<open>C9: the counter of the decompressor's loop\<close>

text \<open>
  C9, as the code has it. An iteration that completes writes one non-empty string at
  \<^verbatim>\<open>dict_next\<close>, changes no other slot of \<^verbatim>\<open>dict\<close> and moves the counter on by one,
  without wrapping. In the first branch, when the slot of the codeword holds \<open>b # r\<close>,
  the string of \<^verbatim>\<open>cw_prev\<close> is \<open>p\<close> and fits \<^verbatim>\<open>substr_ch\<close>, the copy fits the output
  and the arrays can take one more entry, the iteration completes, copies \<open>b # r\<close> to
  the output and writes \<open>p @ [b]\<close> at \<^verbatim>\<open>dict_next\<close> (the second branch is C5). After a
  run over \<open>cws\<close> that completes the counter is \<open>257 + length cws\<close>, the written
  indices are exactly those from 1 below the counter, and index 0 is not written. A
  run completes on every stream in order, a seeded first codeword followed by
  codewords each between 1 and the counter at the time it is read, when the stream is
  shorter than \<^verbatim>\<open>substr_ch\<close> and the first element leaves room for the output.
\<close>

theorem C9_dict_next_invariant:
  "(decomp_step s cw = Inr s' \<longrightarrow>
      (\<exists>sub. sub \<noteq> [] \<and> dict s' = (dict s)(dict_next s \<mapsto> sub)) \<and>
      unat (dict_next s') = unat (dict_next s) + 1) \<and>
   (cw < dict_next s \<and> dict s cw = Some (b # r) \<and> dict_lens s cw = Some (length (b # r)) \<and>
    copy_entry s (cw_prev s) = Inr p \<and> length p < BUF_SIZE \<and>
    dest_room s (length (b # r)) \<and> dict_next s < grow s \<longrightarrow>
      (\<exists>s1. decomp_step s cw = Inr s1 \<and> dict s1 = (dict s)(dict_next s \<mapsto> p @ [b]) \<and>
            dest s1 = dest s @ b # r \<and> cw_enc s1 = cw \<and> cw_prev s1 = cw \<and>
            dict_next s1 = dict_next s + 1)) \<and>
   (decomp_loop (decomp_init n c e0) cws = Inr t \<longrightarrow>
      unat (dict_next t) = 257 + length cws \<and>
      dom (dict t) = {k. 1 \<le> k \<and> k < dict_next t} \<and> dict t 0 = None) \<and>
   (1 \<le> c \<and> c \<le> 256 \<and> in_order 257 cws \<and> length cws + 2 \<le> BUF_SIZE \<and>
    1 + length cws * (length cws + 2) \<le> unat (n + 1) \<longrightarrow>
      (\<exists>u. decomp_loop (decomp_init n c [ucast c - 1]) cws = Inr u \<and>
           lzw_decompress (n # c # cws) = Inr \<lparr>str = dest u, dlen = di u, dest_len = n + 1\<rparr>))"
proof (intro conjI impI)
  assume step: "decomp_step s cw = Inr s'"
  show "\<exists>sub. sub \<noteq> [] \<and> dict s' = (dict s)(dict_next s \<mapsto> sub)"
    using decomp_step_sub [OF step] by metis
  show "unat (dict_next s') = unat (dict_next s) + 1"
    using decomp_step_next [OF step] by simp
next
  assume a: "cw < dict_next s \<and> dict s cw = Some (b # r) \<and>
    dict_lens s cw = Some (length (b # r)) \<and>
    copy_entry s (cw_prev s) = Inr p \<and> length p < BUF_SIZE \<and>
    dest_room s (length (b # r)) \<and> dict_next s < grow s"
  have e: "copy_entry s cw = Inr (b # r)" using a by (intro copy_entry_written) simp_all
  have f: "first_byte s cw = Inr b" using a by (intro first_byte_written) simp_all
  have "decomp_step s cw = Inr (append_entry s cw (b # r) cw (p @ [b]))"
    using a e f by (intro decomp_step_known) simp_all
  then show "\<exists>s1. decomp_step s cw = Inr s1 \<and> dict s1 = (dict s)(dict_next s \<mapsto> p @ [b]) \<and>
            dest s1 = dest s @ b # r \<and> cw_enc s1 = cw \<and> cw_prev s1 = cw \<and>
            dict_next s1 = dict_next s + 1"
    by (simp add: append_entry_sel)
next
  assume run: "decomp_loop (decomp_init n c e0) cws = Inr t"
  show nx: "unat (dict_next t) = 257 + length cws" by (rule decomp_init_run_next [OF run])
  show d: "dom (dict t) = {k. 1 \<le> k \<and> k < dict_next t}"
    unfolding word_set_nat nx by (rule decomp_init_run_dom [OF run])
  have "(0::32 word) \<notin> dom (dict t)" unfolding d by simp
  then show "dict t 0 = None" by blast
next
  assume a: "1 \<le> c \<and> c \<le> 256 \<and> in_order 257 cws \<and> length cws + 2 \<le> BUF_SIZE \<and>
    1 + length cws * (length cws + 2) \<le> unat (n + 1)"
  then have c: "1 \<le> unat c" "unat c \<le> 256" by (simp_all add: word_le_nat_alt)
  from a lzw_decompress_in_order [OF c, of cws n]
  obtain u where u: "decomp_loop (decomp_init n c [ucast c - 1]) cws = Inr u"
    "lzw_decompress (n # c # cws) = Inr \<lparr>str = dest u, dlen = di u, dest_len = dstate.dest_len u\<rparr>"
    by blast
  have "dstate.dest_len u = n + 1"
    using lzw_decompress_fits(3) [OF u(2)] by simp
  then show "\<exists>u. decomp_loop (decomp_init n c [ucast c - 1]) cws = Inr u \<and>
      lzw_decompress (n # c # cws) = Inr \<lparr>str = dest u, dlen = di u, dest_len = n + 1\<rparr>"
    using u by auto
qed

theorem C9_witness:
  "decomp_step (decomp_init 9 66 [65]) 67 =
     Inr (append_entry (decomp_init 9 66 [65]) 67 [66] 67 [65, 66]) \<and>
   dict (append_entry (decomp_init 9 66 [65]) 67 [66] 67 [65, 66]) =
     seed_dict(257 \<mapsto> [65, 66]) \<and>
   unat (dict_next (append_entry (decomp_init 9 66 [65]) 67 [66] 67 [65, 66])) = 258 \<and>
   (1::codeword) \<le> 66 \<and> (66::codeword) \<le> 256 \<and> in_order 257 [67, 258] \<and>
   length [67, 258 :: codeword] + 2 \<le> BUF_SIZE \<and>
   1 + length [67, 258 :: codeword] * (length [67, 258 :: codeword] + 2) \<le> unat (9 + 1 :: codeword) \<and>
   lzw_decompress [9, 66, 67, 258] = Inr \<lparr>str = [65, 66, 66, 66], dlen = 4, dest_len = 10\<rparr> \<and>
   (\<exists>t. decomp_loop (decomp_init 9 66 [65]) [67, 258] = Inr t \<and>
        unat (dict_next t) = 259 \<and> dom (dict t) = {k. 1 \<le> k \<and> k < dict_next t} \<and>
        dict t 0 = None \<and> dict t 257 = Some [65, 66] \<and> dict t 258 = Some [66, 66])"
proof -
  let ?s0 = "decomp_init 9 66 [65]"
  let ?s1 = "append_entry ?s0 67 [66] 67 [65, 66]"
  let ?s2 = "append_entry ?s1 258 [66, 66] 258 [66, 66]"
  have s1: "decomp_step ?s0 67 = Inr ?s1" by (rule decomp_init_step_67)
  have s2: "decomp_step ?s1 258 = Inr ?s2" by (rule after_67_step_unknown) simp
  have run: "decomp_loop ?s0 [67, 258] = Inr ?s2" by (simp add: s1 s2)
  have k: "cw_prev ?s0 = 66" "dict_next ?s0 = 257" "dest ?s0 = [65]"
    by (simp_all add: decomp_init_def)
  have hyp: "(67::codeword) < dict_next ?s0 \<and> dict ?s0 67 = Some (66 # []) \<and>
    dict_lens ?s0 67 = Some (length (66 # [] :: byte list)) \<and>
    copy_entry ?s0 (cw_prev ?s0) = Inr [65] \<and> length [65::byte] < BUF_SIZE \<and>
    dest_room ?s0 (length (66 # [] :: byte list)) \<and> dict_next ?s0 < grow ?s0"
    unfolding k
    by (simp add: copy_entry_init dest_room_init BUF_SIZE_def)
      (simp add: decomp_init_def seed_dict_apply seed_lens_apply grow_def)
  have ord: "(1::codeword) \<le> 66 \<and> (66::codeword) \<le> 256 \<and> in_order 257 [67, 258] \<and>
    length [67, 258 :: codeword] + 2 \<le> BUF_SIZE \<and>
    1 + length [67, 258 :: codeword] * (length [67, 258 :: codeword] + 2) \<le> unat (9 + 1 :: codeword)"
    by (simp add: BUF_SIZE_def)
  note inst = C9_dict_next_invariant [of ?s0 67 ?s1 66 "[]" "[65]" 9 66 "[65]" "[67, 258]" ?s2]
  have d0: "dict ?s0 = seed_dict" by (simp add: decomp_init_def)
  from conjunct1 [OF conjunct2 [OF inst], THEN mp, OF hyp]
  obtain s1' where "decomp_step ?s0 67 = Inr s1'"
    "dict s1' = (dict ?s0)(dict_next ?s0 \<mapsto> [65] @ [66])"
    by blast
  then have "dict ?s1 = (dict ?s0)(dict_next ?s0 \<mapsto> [65] @ [66])"
    using s1 by simp
  moreover have "unat (dict_next ?s1) = unat (dict_next ?s0) + 1"
    using conjunct1 [OF inst, THEN mp, OF s1] by blast
  ultimately have one: "dict ?s1 = seed_dict(257 \<mapsto> [65, 66]) \<and> unat (dict_next ?s1) = 258"
    unfolding k d0 by simp
  have inv: "unat (dict_next ?s2) = 259 \<and> dom (dict ?s2) = {k. 1 \<le> k \<and> k < dict_next ?s2} \<and>
      dict ?s2 0 = None"
    using inst run by simp
  have "dict ?s2 = (dict ?s1)(dict_next ?s1 \<mapsto> [66, 66])"
    by (rule append_entry_sel(1))
  then have "dict ?s2 = seed_dict(257 \<mapsto> [65, 66], 258 \<mapsto> [66, 66])"
    unfolding after_67_sel .
  then have ent: "dict ?s2 257 = Some [65, 66] \<and> dict ?s2 258 = Some [66, 66]"
    by simp
  have fin: "dest ?s2 = [65, 66, 66, 66]" "di ?s2 = 4"
    unfolding append_entry_sel(7,8) [of ?s1] after_67_sel by simp_all
  have out: "lzw_decompress [9, 66, 67, 258] =
      Inr \<lparr>str = [65, 66, 66, 66], dlen = 4, dest_len = 10\<rparr>"
    using conjunct2 [OF conjunct2 [OF conjunct2 [OF inst]], THEN mp, OF ord] run
    by (simp add: fin)
  show ?thesis using s1 one ord out run inv ent by blast
qed

text \<open>
  The claim as stated, for every iteration, fails: the iteration that reads the codeword
  0 reads \<^verbatim>\<open>dict_lens[0]\<close>, which was never written, and the iteration of the stream
  \<open>[0, 66, 67]\<close> copies a byte past the end of the output allocation of one byte. Neither
  is an iteration that appends an entry and moves the counter on.
\<close>

theorem C9_counterexample:
  "decomp_step (decomp_init 9 66 [65]) 0 = Inl (DictUnassigned 0) \<and>
   lzw_decompress [9, 66, 0] = Inl (DictUnassigned 0) \<and>
   decomp_step (decomp_init 0 66 [65]) 67 = Inl DestOverflow \<and>
   lzw_decompress [0, 66, 67] = Inl DestOverflow"
  by (simp add: lzw_decompress_def decomp_step_def decode_known_def copy_entry_init
      dest_room_init)
    (simp add: decomp_init_def)

subsection \<open>C10: two streams that differ in the first element\<close>

text \<open>
  C10, as the code has it. Take two streams of the same length that differ at most in
  the first element. If the run on the first completes, the count it returns is the
  number of bytes it copied, they fit its allocation, and the run on the second gives
  the same bytes and the same count when they fit an allocation of its first element
  plus one, and copies past the end of that allocation when they do not. If the run on
  the first stops at a fault other than such a copy, the run on the second stops at the
  same fault or at such a copy. The count is never compared with the first element.
\<close>

theorem C10_length_codeword_sizes_buffer:
  "length s1 = length s2 \<and> tl s1 = tl s2 \<longrightarrow>
     (lzw_decompress s1 = Inr r1 \<longrightarrow>
        dlen r1 = of_nat (length (str r1)) \<and> dest_len r1 = hd s1 + 1 \<and>
        length (str r1) \<le> unat (hd s1 + 1) \<and>
        lzw_decompress s2 =
          (if length (str r1) \<le> unat (hd s2 + 1) then Inr (r1\<lparr>dest_len := hd s2 + 1\<rparr>)
           else Inl DestOverflow)) \<and>
     (lzw_decompress s1 = Inl f \<and> f \<noteq> DestOverflow \<longrightarrow>
        lzw_decompress s2 = Inl f \<or> lzw_decompress s2 = Inl DestOverflow)"
proof (intro impI conjI)
  assume eq: "length s1 = length s2 \<and> tl s1 = tl s2" and r: "lzw_decompress s1 = Inr r1"
  then obtain n rest where s1: "s1 = n # rest"
    by (cases s1) (auto simp: lzw_decompress_def)
  then obtain m where s2: "s2 = m # rest" using eq by (cases s2) auto
  show "dlen r1 = of_nat (length (str r1))" by (rule lzw_decompress_fits(1) [OF r])
  show l: "dest_len r1 = hd s1 + 1" by (rule lzw_decompress_fits(3) [OF r])
  show "length (str r1) \<le> unat (hd s1 + 1)" using lzw_decompress_fits(2) [OF r] l by simp
  show "lzw_decompress s2 =
      (if length (str r1) \<le> unat (hd s2 + 1) then Inr (r1\<lparr>dest_len := hd s2 + 1\<rparr>)
       else Inl DestOverflow)"
    using lzw_decompress_resize [OF r [unfolded s1], of m] by (simp add: s2)
next
  assume eq: "length s1 = length s2 \<and> tl s1 = tl s2"
    and f: "lzw_decompress s1 = Inl f \<and> f \<noteq> DestOverflow"
  show "lzw_decompress s2 = Inl f \<or> lzw_decompress s2 = Inl DestOverflow"
  proof (cases s1)
    case Nil
    then show ?thesis using eq f by simp
  next
    case (Cons n rest)
    then obtain m where s2: "s2 = m # rest" using eq by (cases s2) auto
    show ?thesis
      using lzw_decompress_fault_resize [of n rest f m] f by (simp add: Cons s2)
  qed
qed

theorem C10_witness:
  "length [3, 66, 257 :: codeword] = length [9, 66, 257 :: codeword] \<and>
   tl [3, 66, 257 :: codeword] = tl [9, 66, 257] \<and>
   lzw_decompress [3, 66, 257] = Inr \<lparr>str = [65, 65, 65], dlen = 3, dest_len = 4\<rparr> \<and>
   lzw_decompress [9, 66, 257] = Inr \<lparr>str = [65, 65, 65], dlen = 3, dest_len = 10\<rparr> \<and>
   lzw_decompress [1, 66, 257] = Inl DestOverflow \<and>
   lzw_decompress [3, 0, 257] = Inl (DictUnassigned 0) \<and> DictUnassigned 0 \<noteq> DestOverflow \<and>
   (lzw_decompress [9, 0, 257] = Inl (DictUnassigned 0) \<or>
    lzw_decompress [9, 0, 257] = Inl DestOverflow)"
proof -
  have a: "lzw_decompress [3, 66, 257] = Inr \<lparr>str = [65, 65, 65], dlen = 3, dest_len = 4\<rparr>"
    using lzw_decompress_three [of 66 257 3] by simp
  have b: "lzw_decompress [3, 0, 257] = Inl (DictUnassigned 0)"
    using lzw_decompress_unseeded [of 0 3 "[257]"] by simp
  show ?thesis
    using C10_length_codeword_sizes_buffer [of "[3, 66, 257]" "[9, 66, 257]"
        "\<lparr>str = [65, 65, 65], dlen = 3, dest_len = 4\<rparr>" "DictUnassigned 0"]
      C10_length_codeword_sizes_buffer [of "[3, 66, 257]" "[1, 66, 257]"
        "\<lparr>str = [65, 65, 65], dlen = 3, dest_len = 4\<rparr>" "DictUnassigned 0"]
      C10_length_codeword_sizes_buffer [of "[3, 0, 257]" "[9, 0, 257]"
        "\<lparr>str = [65, 65, 65], dlen = 3, dest_len = 4\<rparr>" "DictUnassigned 0"]
      a b
    by simp
qed

text \<open>
  The claim as stated fails: the streams \<open>[3, 66, 257]\<close> and \<open>[0, 66, 257]\<close> differ in
  the first element only; the first decodes to three bytes, the second copies two
  bytes past the end of an allocation of one byte.
\<close>

theorem C10_counterexample:
  "length [3, 66, 257 :: codeword] = length [0, 66, 257 :: codeword] \<and>
   tl [3, 66, 257 :: codeword] = tl [0, 66, 257] \<and>
   lzw_decompress [3, 66, 257] = Inr \<lparr>str = [65, 65, 65], dlen = 3, dest_len = 4\<rparr> \<and>
   lzw_decompress [0, 66, 257] = Inl DestOverflow"
proof -
  have "lzw_decompress [3, 66, 257] = Inr \<lparr>str = [65, 65, 65], dlen = 3, dest_len = 4\<rparr>"
    using lzw_decompress_three [of 66 257 3] by simp
  moreover have "lzw_decompress [0, 66, 257] = Inl DestOverflow"
    using lzw_decompress_three [of 66 257 0] by simp
  ultimately show ?thesis by simp
qed

end
